theory Spec2Isabelle
  imports Main "HOL-Library.Word"
begin

unbundle bit_operations_syntax

section \<open>The SBEFIFO driver (drivers/fsi/fsi-sbefifo.c)\<close>

text \<open>
  A shallow embedding of the transfer engine of the SBEFIFO character device: the ring
  buffers, the transfer queue, the poll timer function and the read/write entry points.

  Conventions of the embedding:
  \<^item> \<open>u32\<close> is a 32-bit word; \<open>size_t\<close> and \<open>unsigned long\<close> are taken as 64-bit words
    (an LP64 kernel). The width only matters where an operand is out of its intended
    range and the C arithmetic wraps.
  \<^item> A pointer into \<open>buf->buf\<close> is the index of the word it points at (\<open>buf->buf\<close> is
    index 0, \<open>buf->buf + SBEFIFO_BUF_CNT\<close> is index 32); pointer differences are
    converted to \<open>size_t\<close> as C does.
  \<^item> Bit \<open>SBEFIFO_BUF_FULL\<close> of \<open>flags\<close> is the only bit of that field the driver
    uses; it is the boolean \<open>buf_full\<close>. The four flag bits of a transfer are booleans
    too.
  \<^item> \<open>fsi_device_read\<close>, \<open>fsi_device_write\<close>, the byte-order macros and
    \<open>msecs_to_jiffies\<close> are not part of the driver: they are the fields of a
    \<open>platform\<close> record that every function touching the device takes as a parameter.
    A device access returns the error code, the value and the device's next state; the
    accesses of one run of the timer function are collected in a list.
  \<^item> Transfers and clients live in two stores indexed by address; \<open>kzalloc\<close> is a
    parameter (the fresh address, or \<open>None\<close> when the allocation fails) and \<open>kfree\<close>
    removes the address from the store.
  \<^item> A function returns \<open>None\<close> where the C code has no defined result: it follows a
    pointer to freed memory, the timer function accesses a buffer outside its storage,
    or a loop does not terminate. A read that copies out of the read ring past the end
    of its storage does return in the kernel: it hands out the words that lie behind the
    storage in \<open>struct sbefifo_client\<close>. Those words are a parameter (\<open>past\<close>) of the
    part of \<open>sbefifo_read_common\<close> that copies.
  \<^item> \<open>xfr->rbuf\<close> and \<open>xfr->wbuf\<close> are set once, to the two buffers of the enqueuing
    client; the transfer keeps the client's address in \<open>xfr_client\<close>.
  \<^item> The reference count of the device structure (\<open>sbefifo_get\<close>, \<open>sbefifo_put\<close>)
    only decides when that structure is freed; it is left out, as are the wait queue
    wake-ups, which change no state. The pending poll timer is \<open>poll_timer\<close>: its
    expiry time when it is pending.
  \<^item> \<open>sbefifo_read_common\<close> and \<open>sbefifo_write_common\<close> sleep in
    \<open>wait_event_interruptible\<close>; each is split at its wait into the part before it, the
    part run when the wait returns 0 and the part run when a signal interrupts it.
\<close>

type_synonym u32 = "32 word"
type_synonym size_t = "64 word"

definition SBEFIFO_BUF_CNT :: nat where
  "SBEFIFO_BUF_CNT = 32"

subsection \<open>Ring buffer\<close>

record sbefifo_buf =
  buf :: "u32 list"
  buf_full :: bool
  rpos :: nat
  wpos :: nat

definition sbefifo_buf_init :: "sbefifo_buf \<Rightarrow> sbefifo_buf" where
  "sbefifo_buf_init b = b\<lparr>buf_full := False, rpos := 0, wpos := 0\<rparr>"

definition sbefifo_buf_nbreadable :: "sbefifo_buf \<Rightarrow> size_t" where
  "sbefifo_buf_nbreadable b =
     (let n = (if buf_full b then of_nat SBEFIFO_BUF_CNT
               else if rpos b \<le> wpos b then of_nat (wpos b - rpos b)
               else of_nat SBEFIFO_BUF_CNT - of_nat (rpos b))
      in push_bit 2 n)"

definition sbefifo_buf_nbwriteable :: "sbefifo_buf \<Rightarrow> size_t" where
  "sbefifo_buf_nbwriteable b =
     (let n = (if buf_full b then 0
               else if wpos b < rpos b then of_nat (rpos b - wpos b)
               else of_nat SBEFIFO_BUF_CNT - of_nat (wpos b))
      in push_bit 2 n)"

text \<open>
  \<open>sbefifo_buf_readnb\<close> and \<open>sbefifo_buf_wrotenb\<close> return the C function's boolean and
  the updated buffer.
\<close>

definition sbefifo_buf_readnb :: "sbefifo_buf \<Rightarrow> size_t \<Rightarrow> bool \<times> sbefifo_buf" where
  "sbefifo_buf_readnb b n =
     (let b1 = (if n \<noteq> 0 then b\<lparr>buf_full := False\<rparr> else b);
          r1 = rpos b + unat (drop_bit 2 n);
          r2 = (if r1 = SBEFIFO_BUF_CNT then 0 else r1)
      in (r2 = wpos b, b1\<lparr>rpos := r2\<rparr>))"

definition sbefifo_buf_wrotenb :: "sbefifo_buf \<Rightarrow> size_t \<Rightarrow> bool \<times> sbefifo_buf" where
  "sbefifo_buf_wrotenb b n =
     (let w1 = wpos b + unat (drop_bit 2 n);
          w2 = (if w1 = SBEFIFO_BUF_CNT then 0 else w1);
          b1 = (if w2 = rpos b then b\<lparr>buf_full := True\<rparr> else b)
      in (rpos b = w2, b1\<lparr>wpos := w2\<rparr>))"

text \<open>
  The cursors of a buffer are in range, and a full buffer has both cursors at the same
  word.
\<close>

definition buf_wf :: "sbefifo_buf \<Rightarrow> bool" where
  "buf_wf b = (rpos b < SBEFIFO_BUF_CNT \<and> wpos b < SBEFIFO_BUF_CNT \<and>
               (if buf_full b then rpos b = wpos b else True))"

text \<open>
  Buffer states reached from an initialised buffer by commits: a write commit of at most
  \<open>sbefifo_buf_nbwriteable\<close> bytes, a read commit of at most \<open>sbefifo_buf_nbreadable\<close>
  bytes that does not move the read cursor past the end of the storage.
\<close>

inductive ring_reach :: "sbefifo_buf \<Rightarrow> bool" where
  ring_init: "ring_reach (sbefifo_buf_init b)"
| ring_wrote: "ring_reach b \<Longrightarrow> a \<le> sbefifo_buf_nbwriteable b \<Longrightarrow>
     ring_reach (snd (sbefifo_buf_wrotenb b a))"
| ring_read: "ring_reach b \<Longrightarrow> n \<le> sbefifo_buf_nbreadable b \<Longrightarrow>
     rpos b + unat (drop_bit 2 n) \<le> SBEFIFO_BUF_CNT \<Longrightarrow>
     ring_reach (snd (sbefifo_buf_readnb b n))"

definition ring0 :: sbefifo_buf where
  "ring0 = \<lparr>buf = replicate 32 0, buf_full = False, rpos = 0, wpos = 0\<rparr>"

text \<open>Four words committed and consumed again: both cursors at index 4, not full.\<close>

definition ring_moved :: sbefifo_buf where
  "ring_moved =
     snd (sbefifo_buf_readnb (snd (sbefifo_buf_wrotenb (sbefifo_buf_init ring0) 16)) 16)"

text \<open>All 32 words committed: both cursors at index 0, full.\<close>

definition ring_filled :: sbefifo_buf where
  "ring_filled = snd (sbefifo_buf_wrotenb (sbefifo_buf_init ring0) 128)"

type_synonym ulong = "64 word"

subsection \<open>Constants\<close>

definition SBEFIFO_UP :: nat where "SBEFIFO_UP = 0x00"
definition SBEFIFO_DWN :: nat where "SBEFIFO_DWN = 0x40"
definition SBEFIFO_STS :: nat where "SBEFIFO_STS = 0x04"
definition SBEFIFO_EOT_RAISE :: nat where "SBEFIFO_EOT_RAISE = 0x08"
definition SBEFIFO_EOT_MAGIC :: u32 where "SBEFIFO_EOT_MAGIC = 0xffffffff"
definition SBEFIFO_EOT_ACK :: nat where "SBEFIFO_EOT_ACK = 0x14"

definition EAGAIN :: int where "EAGAIN = 11"
definition ENOMEM :: int where "ENOMEM = 12"
definition EFAULT :: int where "EFAULT = 14"
definition ENODEV :: int where "ENODEV = 19"
definition EINVAL :: int where "EINVAL = 22"
definition ETIME :: int where "ETIME = 62"
definition EPROTO :: int where "EPROTO = 71"
definition ERESTARTSYS :: int where "ERESTARTSYS = 512"

subsection \<open>The platform: register backend and kernel helpers\<close>

record 'd platform =
  fsi_device_read :: "'d \<Rightarrow> nat \<Rightarrow> int \<times> u32 \<times> 'd"
  fsi_device_write :: "'d \<Rightarrow> nat \<Rightarrow> u32 \<Rightarrow> int \<times> 'd"
  be32_to_cpu :: "u32 \<Rightarrow> u32"
  cpu_to_be32 :: "u32 \<Rightarrow> u32"
  msecs_to_jiffies :: "nat \<Rightarrow> ulong"

datatype fsi_access = Fsi_read nat int u32 | Fsi_write nat u32 int

type_synonym 'd fsi = "'d \<times> fsi_access list"

definition SBEFIFO_RESCHEDULE :: "'d platform \<Rightarrow> ulong" where
  "SBEFIFO_RESCHEDULE P = msecs_to_jiffies P 500"

definition SBEFIFO_MAX_RESCHDULE :: "'d platform \<Rightarrow> ulong" where
  "SBEFIFO_MAX_RESCHDULE P = msecs_to_jiffies P 5000"

definition time_after :: "ulong \<Rightarrow> ulong \<Rightarrow> bool" where
  "time_after a b = (sint (b - a) < 0)"

definition sbefifo_inw :: "'d platform \<Rightarrow> 'd fsi \<Rightarrow> nat \<Rightarrow> int \<times> u32 \<times> 'd fsi" where
  "sbefifo_inw P f reg =
     (case fsi_device_read P (fst f) reg of
        (r, raw_word, d) \<Rightarrow> (r, be32_to_cpu P raw_word, (d, snd f @ [Fsi_read reg r raw_word])))"

definition sbefifo_outw :: "'d platform \<Rightarrow> 'd fsi \<Rightarrow> nat \<Rightarrow> u32 \<Rightarrow> int \<times> 'd fsi" where
  "sbefifo_outw P f reg word =
     (let raw_word = cpu_to_be32 P word in
      case fsi_device_write P (fst f) reg raw_word of
        (r, d) \<Rightarrow> (r, (d, snd f @ [Fsi_write reg raw_word r])))"

definition sbefifo_readw :: "'d platform \<Rightarrow> 'd fsi \<Rightarrow> int \<times> u32 \<times> 'd fsi" where
  "sbefifo_readw P f =
     (case fsi_device_read P (fst f) SBEFIFO_DWN of
        (r, word, d) \<Rightarrow> (r, word, (d, snd f @ [Fsi_read SBEFIFO_DWN r word])))"

definition sbefifo_writew :: "'d platform \<Rightarrow> 'd fsi \<Rightarrow> u32 \<Rightarrow> int \<times> 'd fsi" where
  "sbefifo_writew P f word =
     (case fsi_device_write P (fst f) SBEFIFO_UP word of
        (r, d) \<Rightarrow> (r, (d, snd f @ [Fsi_write SBEFIFO_UP word r])))"

definition sbefifo_ack_eot :: "'d platform \<Rightarrow> 'd fsi \<Rightarrow> int \<times> 'd fsi" where
  "sbefifo_ack_eot P f =
     (case sbefifo_readw P f of
        (ret, discard, f1) \<Rightarrow>
          if ret \<noteq> 0 then (ret, f1)
          else sbefifo_outw P f1 (SBEFIFO_DWN OR SBEFIFO_EOT_ACK) SBEFIFO_EOT_MAGIC)"

definition sbefifo_dev_nwreadable :: "u32 \<Rightarrow> size_t" where
  "sbefifo_dev_nwreadable sts = ucast (drop_bit 16 (sts AND 0x000f0000))"

definition sbefifo_dev_nwwriteable :: "u32 \<Rightarrow> size_t" where
  "sbefifo_dev_nwwriteable sts = 8 - sbefifo_dev_nwreadable sts"

subsection \<open>Transfers, clients, the device\<close>

record sbefifo_xfr =
  wait_data_timeout :: ulong
  xfr_client :: nat
  xfr_write_done :: bool
  xfr_resp_pending :: bool
  xfr_complete :: bool
  xfr_cancel :: bool

record sbefifo_client =
  rbuf :: sbefifo_buf
  wbuf :: sbefifo_buf
  client_xfrs :: "nat list"
  kref :: nat
  o_nonblock :: bool

record 'd sbefifo =
  fsi_dev :: 'd
  poll_timer :: "ulong option"
  xfrs :: "nat list"
  rc :: int
  xfr_mem :: "nat \<rightharpoonup> sbefifo_xfr"
  client_mem :: "nat \<rightharpoonup> sbefifo_client"

subsection \<open>The poll timer function\<close>

datatype tick_exit = Loop_done | Loop_break | Goto_out int | Goto_out_unlock

fun drain_words ::
  "'d platform \<Rightarrow> nat \<Rightarrow> 'd fsi \<Rightarrow> sbefifo_buf \<Rightarrow> (int \<times> 'd fsi \<times> sbefifo_buf) option" where
  "drain_words P 0 f w = Some (0, f, w)"
| "drain_words P (Suc i) f w =
     (if rpos w < length (buf w) then
        (case sbefifo_writew P f (buf w ! rpos w) of
           (ret, f1) \<Rightarrow>
             if ret \<noteq> 0 then Some (ret, f1, w)
             else drain_words P i f1 (snd (sbefifo_buf_readnb w 4)))
      else None)"

partial_function (option) drain_loop ::
  "'d platform \<Rightarrow> 'd fsi \<Rightarrow> sbefifo_buf \<Rightarrow> (tick_exit \<times> 'd fsi \<times> sbefifo_buf) option" where
  "drain_loop P f w =
     (let bufn = sbefifo_buf_nbreadable w in
      if bufn = 0 then Some (Loop_done, f, w)
      else
        (case sbefifo_inw P f (SBEFIFO_UP OR SBEFIFO_STS) of
           (ret, sts, f1) \<Rightarrow>
             if ret \<noteq> 0 then Some (Goto_out ret, f1, w)
             else
               (let devn = sbefifo_dev_nwwriteable sts in
                if devn = 0 then Some (Goto_out_unlock, f1, w)
                else
                  (case drain_words P (unat (min devn (drop_bit 2 bufn))) f1 w of
                     None \<Rightarrow> None
                   | Some (ret, f2, w2) \<Rightarrow>
                       if ret \<noteq> 0 then Some (Goto_out ret, f2, w2)
                       else drain_loop P f2 w2))))"

declare drain_loop.simps [code]

fun fill_words ::
  "'d platform \<Rightarrow> bool \<Rightarrow> nat \<Rightarrow> 'd fsi \<Rightarrow> sbefifo_buf \<Rightarrow> (int \<times> 'd fsi \<times> sbefifo_buf) option" where
  "fill_words P cancel 0 f r = Some (0, f, r)"
| "fill_words P cancel (Suc i) f r =
     (if wpos r < length (buf r) then
        (case sbefifo_readw P f of
           (ret, word, f1) \<Rightarrow>
             if ret \<noteq> 0 then Some (ret, f1, r)
             else
               (let r1 = r\<lparr>buf := (buf r)[wpos r := word]\<rparr> in
                fill_words P cancel i f1
                  (if \<not> cancel then snd (sbefifo_buf_wrotenb r1 4) else r1)))
      else None)"

partial_function (option) fill_loop ::
  "'d platform \<Rightarrow> ulong \<Rightarrow> bool \<Rightarrow> 'd fsi \<Rightarrow> sbefifo_buf \<Rightarrow> ulong \<Rightarrow>
   (tick_exit \<times> 'd fsi \<times> sbefifo_buf \<times> ulong) option" where
  "fill_loop P jiffies cancel f r wdt =
     (let bufn = sbefifo_buf_nbwriteable r in
      if bufn = 0 then Some (Loop_done, f, r, wdt)
      else
        (case sbefifo_inw P f (SBEFIFO_DWN OR SBEFIFO_STS) of
           (ret, sts, f1) \<Rightarrow>
             if ret \<noteq> 0 then Some (Goto_out ret, f1, r, wdt)
             else
               (let devn = sbefifo_dev_nwreadable sts in
                if devn = 0 then
                  (if wdt = 0 then
                     Some (Goto_out_unlock, f1, r, jiffies + SBEFIFO_MAX_RESCHDULE P)
                   else if time_after jiffies wdt then Some (Goto_out (- ETIME), f1, r, wdt)
                   else Some (Goto_out_unlock, f1, r, wdt))
                else
                  (let devn1 = min devn (drop_bit 2 bufn);
                       eot = (sts AND 0x000000ff \<noteq> 0);
                       devn2 = (if eot then devn1 - 1 else devn1)
                   in case fill_words P cancel (unat devn2) f1 r of
                        None \<Rightarrow> None
                      | Some (ret, f2, r2) \<Rightarrow>
                          if ret \<noteq> 0 then Some (Goto_out ret, f2, r2, 0)
                          else if eot then
                            (case sbefifo_ack_eot P f2 of
                               (ret, f3) \<Rightarrow>
                                 if ret \<noteq> 0 then Some (Goto_out ret, f3, r2, 0)
                                 else Some (Loop_break, f3, r2, 0))
                          else fill_loop P jiffies cancel f2 r2 0))))"

declare fill_loop.simps [code]

text \<open>
  The local \<open>struct sbefifo_buf drain\<close> of the timer function after \<open>sbefifo_buf_init\<close>.
  Its storage is uninitialised stack memory; what it holds is never read, since the
  buffer is never reported readable.
\<close>

definition drain_buf :: sbefifo_buf where
  "drain_buf =
     sbefifo_buf_init \<lparr>buf = replicate 32 0, buf_full = False, rpos = 0, wpos = 0\<rparr>"

definition tick_fill ::
  "'d platform \<Rightarrow> ulong \<Rightarrow> 'd fsi \<Rightarrow> sbefifo_buf \<Rightarrow> sbefifo_buf \<Rightarrow> sbefifo_xfr \<Rightarrow>
   (tick_exit \<times> 'd fsi \<times> sbefifo_buf \<times> sbefifo_buf \<times> sbefifo_xfr) option" where
  "tick_fill P jiffies f rb wb xfr =
     (if \<not> xfr_resp_pending xfr then Some (Goto_out 0, f, rb, wb, xfr)
      else
        (case fill_loop P jiffies (xfr_cancel xfr) f rb (wait_data_timeout xfr) of
           None \<Rightarrow> None
         | Some (ex, f1, rb1, wdt) \<Rightarrow> Some (ex, f1, rb1, wb, xfr\<lparr>wait_data_timeout := wdt\<rparr>)))"

definition tick_transfer ::
  "'d platform \<Rightarrow> ulong \<Rightarrow> 'd fsi \<Rightarrow> sbefifo_buf \<Rightarrow> sbefifo_buf \<Rightarrow> sbefifo_xfr \<Rightarrow>
   (tick_exit \<times> 'd fsi \<times> sbefifo_buf \<times> sbefifo_buf \<times> sbefifo_xfr) option" where
  "tick_transfer P jiffies f rb wb xfr =
     (case drain_loop P f wb of
        None \<Rightarrow> None
      | Some (ex, f1, wb1) \<Rightarrow>
          if ex \<noteq> Loop_done then Some (ex, f1, rb, wb1, xfr)
          else if xfr_write_done xfr then
            (case sbefifo_outw P f1 (SBEFIFO_UP OR SBEFIFO_EOT_RAISE) SBEFIFO_EOT_MAGIC of
               (ret, f2) \<Rightarrow>
                 if ret \<noteq> 0
                 then Some (Goto_out ret, f2, rb, wb1, xfr\<lparr>xfr_write_done := False\<rparr>)
                 else tick_fill P jiffies f2 rb wb1
                        (xfr\<lparr>xfr_write_done := False, xfr_resp_pending := True\<rparr>))
          else tick_fill P jiffies f1 rb wb1 xfr)"

text \<open>
  \<open>sbefifo_next_xfr\<close>: cancelled transfers at the front of the queue are unlinked and
  freed; the first transfer that is not cancelled is returned.
\<close>

fun next_xfr_scan ::
  "(nat \<rightharpoonup> sbefifo_xfr) \<Rightarrow> nat list \<Rightarrow> ((nat \<rightharpoonup> sbefifo_xfr) \<times> nat list) option" where
  "next_xfr_scan m [] = Some (m, [])"
| "next_xfr_scan m (x # q) =
     (case m x of
        None \<Rightarrow> None
      | Some xfr \<Rightarrow>
          if xfr_cancel xfr then next_xfr_scan (m(x := None)) q
          else Some (m, x # q))"

definition sbefifo_next_xfr :: "'d sbefifo \<Rightarrow> (nat option \<times> 'd sbefifo) option" where
  "sbefifo_next_xfr s =
     (case next_xfr_scan (xfr_mem s) (xfrs s) of
        None \<Rightarrow> None
      | Some (m, q) \<Rightarrow>
          Some (case q of [] \<Rightarrow> None | x # _ \<Rightarrow> Some x, s\<lparr>xfrs := q, xfr_mem := m\<rparr>))"

text \<open>The fatal path at label \<open>out\<close>: latch the code, unlink and free every transfer.\<close>

definition tick_fatal :: "int \<Rightarrow> 'd sbefifo \<Rightarrow> 'd sbefifo" where
  "tick_fatal ret s =
     s\<lparr>rc := ret, xfrs := [], xfr_mem := fold (\<lambda>x m. m(x := None)) (xfrs s) (xfr_mem s)\<rparr>"

definition tick_bufs :: "'d sbefifo \<Rightarrow> sbefifo_xfr \<Rightarrow> (sbefifo_buf \<times> sbefifo_buf) option" where
  "tick_bufs s xfr =
     (if xfr_cancel xfr then Some (drain_buf, drain_buf)
      else
        (case client_mem s (xfr_client xfr) of
           None \<Rightarrow> None
         | Some c \<Rightarrow> Some (rbuf c, wbuf c)))"

definition tick_store ::
  "'d sbefifo \<Rightarrow> nat \<Rightarrow> sbefifo_xfr \<Rightarrow> sbefifo_buf \<Rightarrow> sbefifo_buf \<Rightarrow> 'd \<Rightarrow> 'd sbefifo" where
  "tick_store s x xfr rb wb d =
     s\<lparr>fsi_dev := d,
       xfr_mem := (xfr_mem s)(x \<mapsto> xfr),
       client_mem :=
         (if xfr_cancel xfr then client_mem s
          else
            (case client_mem s (xfr_client xfr) of
               None \<Rightarrow> client_mem s
             | Some c \<Rightarrow> (client_mem s)(xfr_client xfr \<mapsto> c\<lparr>rbuf := rb, wbuf := wb\<rparr>)))\<rparr>"

definition tick_complete :: "nat \<Rightarrow> 'd sbefifo \<Rightarrow> 'd sbefifo option" where
  "tick_complete x s =
     (case xfr_mem s x of
        None \<Rightarrow> None
      | Some xfr \<Rightarrow>
          Some (s\<lparr>xfrs := remove1 x (xfrs s),
                  xfr_mem :=
                    (if xfr_cancel xfr then (xfr_mem s)(x := None)
                     else (xfr_mem s)(x \<mapsto> xfr\<lparr>xfr_complete := True\<rparr>))\<rparr>))"

definition tick_finish ::
  "'d platform \<Rightarrow> ulong \<Rightarrow> nat \<Rightarrow> tick_exit \<Rightarrow> 'd sbefifo \<Rightarrow> 'd sbefifo option" where
  "tick_finish P jiffies x ex s =
     (case ex of
        Goto_out_unlock \<Rightarrow> Some (s\<lparr>poll_timer := Some (jiffies + SBEFIFO_RESCHEDULE P)\<rparr>)
      | Goto_out ret \<Rightarrow> Some (if ret \<noteq> 0 then tick_fatal ret s else s)
      | Loop_done \<Rightarrow> Some s
      | Loop_break \<Rightarrow>
          (case tick_complete x s of
             None \<Rightarrow> None
           | Some s1 \<Rightarrow>
               (case sbefifo_next_xfr s1 of
                  None \<Rightarrow> None
                | Some (nx, s2) \<Rightarrow>
                    Some (if nx \<noteq> None then s2\<lparr>poll_timer := Some jiffies\<rparr> else s2))))"

definition sbefifo_poll_timer ::
  "'d platform \<Rightarrow> ulong \<Rightarrow> 'd sbefifo \<Rightarrow> (fsi_access list \<times> 'd sbefifo) option" where
  "sbefifo_poll_timer P jiffies s0 =
     (let s = s0\<lparr>poll_timer := None\<rparr> in
      case xfrs s of
        [] \<Rightarrow> Some ([], s)
      | x # q \<Rightarrow>
          (case xfr_mem s x of
             None \<Rightarrow> None
           | Some xfr \<Rightarrow>
               (case tick_bufs s xfr of
                  None \<Rightarrow> None
                | Some (rb, wb) \<Rightarrow>
                    (let xfr1 = (if xfr_cancel xfr \<and> \<not> xfr_resp_pending xfr
                                 then xfr\<lparr>xfr_write_done := True\<rparr> else xfr)
                     in case tick_transfer P jiffies (fsi_dev s, []) rb wb xfr1 of
                          None \<Rightarrow> None
                        | Some (ex, f, rb1, wb1, xfr2) \<Rightarrow>
                            map_option (Pair (snd f))
                              (tick_finish P jiffies x ex
                                 (tick_store s x xfr2 rb1 wb1 (fst f)))))))"

subsection \<open>Clients\<close>

text \<open>
  \<open>mod_timer(&poll_timer, jiffies)\<close>: the timer is pending afterwards, expiring now.
\<close>

definition mod_timer :: "ulong \<Rightarrow> 'd sbefifo \<Rightarrow> 'd sbefifo" where
  "mod_timer expires s = s\<lparr>poll_timer := Some expires\<rparr>"

definition sbefifo_enq_xfr ::
  "nat option \<Rightarrow> nat \<Rightarrow> 'd sbefifo \<Rightarrow> ((int + nat) \<times> 'd sbefifo) option" where
  "sbefifo_enq_xfr kzalloc c s =
     (if rc s \<noteq> 0 then Some (Inl (rc s), s)
      else
        (case kzalloc of
           None \<Rightarrow> Some (Inl (- ENOMEM), s)
         | Some x \<Rightarrow>
             (case client_mem s c of
                None \<Rightarrow> None
              | Some cl \<Rightarrow>
                  Some (Inr x,
                    s\<lparr>xfrs := xfrs s @ [x],
                      xfr_mem := (xfr_mem s)(x \<mapsto>
                        \<lparr>wait_data_timeout = 0, xfr_client = c, xfr_write_done = False,
                         xfr_resp_pending = False, xfr_complete = False,
                         xfr_cancel = False\<rparr>),
                      client_mem := (client_mem s)(c \<mapsto>
                        cl\<lparr>client_xfrs := client_xfrs cl @ [x]\<rparr>)\<rparr>))))"

definition sbefifo_xfr_rsp_pending :: "'d sbefifo \<Rightarrow> nat \<Rightarrow> bool option" where
  "sbefifo_xfr_rsp_pending s c =
     (case client_mem s c of
        None \<Rightarrow> None
      | Some cl \<Rightarrow>
          (case client_xfrs cl of
             [] \<Rightarrow> Some False
           | x # _ \<Rightarrow> map_option xfr_resp_pending (xfr_mem s x)))"

definition sbefifo_new_client :: "nat option \<Rightarrow> bool \<Rightarrow> 'd sbefifo \<Rightarrow> nat option \<times> 'd sbefifo" where
  "sbefifo_new_client kzalloc nonblock s =
     (case kzalloc of
        None \<Rightarrow> (None, s)
      | Some c \<Rightarrow>
          (Some c,
           s\<lparr>client_mem := (client_mem s)(c \<mapsto>
               \<lparr>rbuf = sbefifo_buf_init
                         \<lparr>buf = replicate 32 0, buf_full = False, rpos = 0, wpos = 0\<rparr>,
                wbuf = sbefifo_buf_init
                         \<lparr>buf = replicate 32 0, buf_full = False, rpos = 0, wpos = 0\<rparr>,
                client_xfrs = [], kref = 1, o_nonblock = nonblock\<rparr>)\<rparr>))"

fun release_xfrs :: "ulong \<Rightarrow> nat list \<Rightarrow> 'd sbefifo \<Rightarrow> 'd sbefifo option" where
  "release_xfrs jiffies [] s = Some s"
| "release_xfrs jiffies (x # xs) s =
     (case xfr_mem s x of
        None \<Rightarrow> None
      | Some xfr \<Rightarrow>
          if xfr_complete xfr
          then release_xfrs jiffies xs (s\<lparr>xfr_mem := (xfr_mem s)(x := None)\<rparr>)
          else release_xfrs jiffies xs
                 (mod_timer jiffies
                    (s\<lparr>xfr_mem := (xfr_mem s)(x \<mapsto> xfr\<lparr>xfr_cancel := True\<rparr>)\<rparr>)))"

definition sbefifo_client_release :: "ulong \<Rightarrow> nat \<Rightarrow> 'd sbefifo \<Rightarrow> 'd sbefifo option" where
  "sbefifo_client_release jiffies c s =
     (case client_mem s c of
        None \<Rightarrow> None
      | Some cl \<Rightarrow>
          (case (if rc s = 0 then release_xfrs jiffies (client_xfrs cl) s else Some s) of
             None \<Rightarrow> None
           | Some s1 \<Rightarrow> Some (s1\<lparr>client_mem := (client_mem s1)(c := None)\<rparr>)))"

definition sbefifo_get_client :: "nat \<Rightarrow> 'd sbefifo \<Rightarrow> 'd sbefifo option" where
  "sbefifo_get_client c s =
     (case client_mem s c of
        None \<Rightarrow> None
      | Some cl \<Rightarrow> Some (s\<lparr>client_mem := (client_mem s)(c \<mapsto> cl\<lparr>kref := kref cl + 1\<rparr>)\<rparr>))"

definition sbefifo_put_client :: "ulong \<Rightarrow> nat \<Rightarrow> 'd sbefifo \<Rightarrow> 'd sbefifo option" where
  "sbefifo_put_client jiffies c s =
     (case client_mem s c of
        None \<Rightarrow> None
      | Some cl \<Rightarrow>
          if kref cl = 0 then None
          else if kref cl = 1 then sbefifo_client_release jiffies c s
          else Some (s\<lparr>client_mem := (client_mem s)(c \<mapsto> cl\<lparr>kref := kref cl - 1\<rparr>)\<rparr>))"

text \<open>
  Label \<open>out\<close> of \<open>sbefifo_read_common\<close> and \<open>sbefifo_write_common\<close>: drop the
  reference taken at entry and return.
\<close>

definition call_out :: "ulong \<Rightarrow> nat \<Rightarrow> 'r \<Rightarrow> 'd sbefifo \<Rightarrow> ('r \<times> 'd sbefifo) option" where
  "call_out jiffies c r s = map_option (Pair r) (sbefifo_put_client jiffies c s)"

subsubsection \<open>Write\<close>

record wr_call =
  w_client :: nat
  w_xfr :: nat
  w_user :: bool
  w_data :: "u32 list"
  w_len :: size_t
  w_ret :: int

definition sbefifo_write_ready :: "'d sbefifo \<Rightarrow> nat \<Rightarrow> nat \<Rightarrow> (bool \<times> size_t) option" where
  "sbefifo_write_ready s x c =
     (case client_mem s c of
        None \<Rightarrow> None
      | Some cl \<Rightarrow>
          (let next = (case client_xfrs cl of [] \<Rightarrow> None | y # _ \<Rightarrow> Some y);
               n = sbefifo_buf_nbwriteable (wbuf cl)
           in Some (rc s \<noteq> 0 \<or> (next = Some x \<and> n \<noteq> 0), n)))"

definition sbefifo_write_common_enter ::
  "ulong \<Rightarrow> nat option \<Rightarrow> nat \<Rightarrow> bool \<Rightarrow> u32 list \<Rightarrow> size_t \<Rightarrow> 'd sbefifo \<Rightarrow>
   ((int + wr_call) \<times> 'd sbefifo) option" where
  "sbefifo_write_common_enter jiffies kzalloc c user data len s =
     (if push_bit 2 (drop_bit 2 len) \<noteq> len then Some (Inl (- EINVAL), s)
      else if len = 0 then Some (Inl 0, s)
      else
        (case sbefifo_get_client c s of
           None \<Rightarrow> None
         | Some s1 \<Rightarrow>
             (case client_mem s1 c of
                None \<Rightarrow> None
              | Some cl \<Rightarrow>
                  (let n = sbefifo_buf_nbwriteable (wbuf cl) in
                   case sbefifo_next_xfr s1 of
                     None \<Rightarrow> None
                   | Some (xfr, s2) \<Rightarrow>
                       if o_nonblock cl \<and> xfr \<noteq> None \<and> n < len
                       then call_out jiffies c (Inl (- EAGAIN)) s2
                       else
                         (case sbefifo_enq_xfr kzalloc c s2 of
                            None \<Rightarrow> None
                          | Some (Inl e, s3) \<Rightarrow> call_out jiffies c (Inl e) s3
                          | Some (Inr x, s3) \<Rightarrow>
                              Some (Inr \<lparr>w_client = c, w_xfr = x, w_user = user,
                                         w_data = data, w_len = len, w_ret = 0\<rparr>, s3))))))"

text \<open>
  The wait at the head of the write loop was interrupted by a signal: cancel the
  transfer, kick the timer, return \<open>-ERESTARTSYS\<close>. The same steps with \<open>-EFAULT\<close>
  follow a failed \<open>copy_from_user\<close>.
\<close>

definition write_cancel :: "ulong \<Rightarrow> wr_call \<Rightarrow> int \<Rightarrow> 'd sbefifo \<Rightarrow> (int \<times> 'd sbefifo) option" where
  "write_cancel jiffies w ret s =
     (case xfr_mem s (w_xfr w) of
        None \<Rightarrow> None
      | Some xfr \<Rightarrow>
          call_out jiffies (w_client w) ret
            (mod_timer jiffies
               (s\<lparr>xfr_mem := (xfr_mem s)(w_xfr w \<mapsto> xfr\<lparr>xfr_cancel := True\<rparr>)\<rparr>)))"

definition sbefifo_write_common_intr ::
  "ulong \<Rightarrow> wr_call \<Rightarrow> 'd sbefifo \<Rightarrow> (int \<times> 'd sbefifo) option" where
  "sbefifo_write_common_intr jiffies w s = write_cancel jiffies w (- ERESTARTSYS) s"

text \<open>
  One iteration of the write loop after the wait has returned 0.
\<close>

definition sbefifo_write_common_iter ::
  "ulong \<Rightarrow> wr_call \<Rightarrow> 'd sbefifo \<Rightarrow> ((int + wr_call) \<times> 'd sbefifo) option" where
  "sbefifo_write_common_iter jiffies w s =
     (case sbefifo_write_ready s (w_xfr w) (w_client w) of
        None \<Rightarrow> None
      | Some (ready, n0) \<Rightarrow>
          (case client_mem s (w_client w) of
             None \<Rightarrow> None
           | Some cl \<Rightarrow>
               if rc s \<noteq> 0 then
                 call_out jiffies (w_client w) (Inl (rc s))
                   (s\<lparr>client_mem := (client_mem s)(w_client w \<mapsto> cl\<lparr>client_xfrs := []\<rparr>)\<rparr>)
               else
                 (let n = min n0 (w_len w);
                      k = unat (drop_bit 2 n);
                      wb = wbuf cl
                  in if length (w_data w) < k then
                       (if w_user w
                        then map_option (\<lambda>(r, s1). (Inl r, s1)) (write_cancel jiffies w (- EFAULT) s)
                        else None)
                     else if length (buf wb) < wpos wb + k then None
                     else
                       (case xfr_mem s (w_xfr w) of
                          None \<Rightarrow> None
                        | Some xfr \<Rightarrow>
                            (let wb1 = wb\<lparr>buf := take (wpos wb) (buf wb) @ take k (w_data w) @
                                                  drop (wpos wb + k) (buf wb)\<rparr>;
                                 wb2 = snd (sbefifo_buf_wrotenb wb1 n);
                                 len = w_len w - n;
                                 ret = w_ret w + sint n;
                                 xfr1 = (if len = 0 then xfr\<lparr>xfr_write_done := True\<rparr> else xfr);
                                 s1 = mod_timer jiffies
                                        (s\<lparr>client_mem := (client_mem s)(w_client w \<mapsto> cl\<lparr>wbuf := wb2\<rparr>),
                                           xfr_mem := (xfr_mem s)(w_xfr w \<mapsto> xfr1)\<rparr>)
                             in if len \<noteq> 0
                                then Some (Inr (w\<lparr>w_data := drop k (w_data w), w_len := len,
                                                  w_ret := ret\<rparr>), s1)
                                else call_out jiffies (w_client w) (Inl ret) s1)))))"

subsubsection \<open>Read\<close>

record rd_call =
  r_client :: nat
  r_user_fault :: bool
  r_len :: size_t

definition sbefifo_read_ready :: "'d sbefifo \<Rightarrow> nat \<Rightarrow> (bool \<times> size_t \<times> int) option" where
  "sbefifo_read_ready s c =
     (case client_mem s c of
        None \<Rightarrow> None
      | Some cl \<Rightarrow>
          (let n = sbefifo_buf_nbreadable (rbuf cl);
               ret = rc s
           in if ret \<noteq> 0 \<or> n \<noteq> 0 then Some (True, n, ret)
              else
                (case client_xfrs cl of
                   [] \<Rightarrow> Some (False, n, ret)
                 | x # _ \<Rightarrow> map_option (\<lambda>xfr. (xfr_complete xfr, n, ret)) (xfr_mem s x))))"

definition sbefifo_read_common_enter ::
  "nat \<Rightarrow> bool \<Rightarrow> size_t \<Rightarrow> 'd sbefifo \<Rightarrow> ((int + rd_call) \<times> 'd sbefifo) option" where
  "sbefifo_read_common_enter c user_fault len s =
     (if push_bit 2 (drop_bit 2 len) \<noteq> len then Some (Inl (- EINVAL), s)
      else
        (case client_mem s c of
           None \<Rightarrow> None
         | Some cl \<Rightarrow>
             (case (if o_nonblock cl then sbefifo_xfr_rsp_pending s c else Some True) of
                None \<Rightarrow> None
              | Some pending \<Rightarrow>
                  if o_nonblock cl \<and> \<not> pending then Some (Inl (- EAGAIN), s)
                  else map_option
                         (Pair (Inr \<lparr>r_client = c, r_user_fault = user_fault, r_len = len\<rparr>))
                         (sbefifo_get_client c s))))"

definition sbefifo_read_common_intr ::
  "ulong \<Rightarrow> rd_call \<Rightarrow> 'd sbefifo \<Rightarrow> (int \<times> 'd sbefifo) option" where
  "sbefifo_read_common_intr jiffies r s = call_out jiffies (r_client r) (- ERESTARTSYS) s"

text \<open>
  \<open>copy_to_user\<close> or \<open>memcpy\<close> of \<open>k\<close> words from \<open>rbuf.rpos\<close>: word \<open>i\<close> of the
  storage while \<open>i\<close> is inside it, and word \<open>i - length storage\<close> of what lies behind it
  otherwise.
\<close>

definition copy_out :: "(nat \<Rightarrow> u32) \<Rightarrow> sbefifo_buf \<Rightarrow> nat \<Rightarrow> u32 list" where
  "copy_out past rb k =
     map (\<lambda>i. if i < length (buf rb) then buf rb ! i else past (i - length (buf rb)))
       [rpos rb..<rpos rb + k]"

text \<open>
  The rest of \<open>sbefifo_read_common\<close> after the wait has returned 0. The result is the
  return value and the words copied to the caller.
\<close>

definition sbefifo_read_common_body ::
  "ulong \<Rightarrow> (nat \<Rightarrow> u32) \<Rightarrow> rd_call \<Rightarrow> 'd sbefifo \<Rightarrow>
   ((int \<times> u32 list) \<times> 'd sbefifo) option" where
  "sbefifo_read_common_body jiffies past r s =
     (case sbefifo_read_ready s (r_client r) of
        None \<Rightarrow> None
      | Some (ready, n0, ret0) \<Rightarrow>
          (case client_mem s (r_client r) of
             None \<Rightarrow> None
           | Some cl \<Rightarrow>
               if ret0 \<noteq> 0 then
                 call_out jiffies (r_client r) (ret0, [])
                   (s\<lparr>client_mem := (client_mem s)(r_client r \<mapsto> cl\<lparr>client_xfrs := []\<rparr>)\<rparr>)
               else
                 (let n = min n0 (r_len r);
                      k = unat (drop_bit 2 n);
                      rb = rbuf cl
                  in if r_user_fault r \<and> n \<noteq> 0 then call_out jiffies (r_client r) (- EFAULT, []) s
                     else
                       (let data = copy_out past rb k;
                            (empty, rb1) = sbefifo_buf_readnb rb n;
                            cl1 = cl\<lparr>rbuf := rb1\<rparr>;
                            s1 = s\<lparr>client_mem := (client_mem s)(r_client r \<mapsto> cl1)\<rparr>
                        in if \<not> empty then call_out jiffies (r_client r) (sint n, data) s1
                           else
                             (case client_xfrs cl1 of
                                [] \<Rightarrow> call_out jiffies (r_client r) (- EPROTO, data) s1
                              | x # xs \<Rightarrow>
                                  (case xfr_mem s1 x of
                                     None \<Rightarrow> None
                                   | Some xfr \<Rightarrow>
                                       if \<not> xfr_complete xfr
                                       then call_out jiffies (r_client r) (sint n, data)
                                              (mod_timer jiffies s1)
                                       else call_out jiffies (r_client r) (sint n, data)
                                              (s1\<lparr>client_mem := (client_mem s1)(r_client r \<mapsto>
                                                     cl1\<lparr>client_xfrs := xs\<rparr>),
                                                  xfr_mem := (xfr_mem s1)(x := None)\<rparr>)))))))"

subsubsection \<open>Open, release, remove\<close>

definition sbefifo_open :: "nat option \<Rightarrow> bool \<Rightarrow> 'd sbefifo \<Rightarrow> (int \<times> nat option) \<times> 'd sbefifo" where
  "sbefifo_open kzalloc nonblock s =
     (if rc s \<noteq> 0 then ((rc s, None), s)
      else
        (case sbefifo_new_client kzalloc nonblock s of
           (None, s1) \<Rightarrow> ((- ENOMEM, None), s1)
         | (Some c, s1) \<Rightarrow> ((0, Some c), s1)))"

definition sbefifo_drv_open :: "nat option \<Rightarrow> bool \<Rightarrow> 'd sbefifo \<Rightarrow> nat option \<times> 'd sbefifo" where
  "sbefifo_drv_open kzalloc nonblock s = sbefifo_new_client kzalloc nonblock s"

definition sbefifo_release :: "ulong \<Rightarrow> nat \<Rightarrow> 'd sbefifo \<Rightarrow> (int \<times> 'd sbefifo) option" where
  "sbefifo_release jiffies c s =
     map_option (\<lambda>s1. (rc s1, s1)) (sbefifo_put_client jiffies c s)"

definition sbefifo_remove :: "'d sbefifo \<Rightarrow> 'd sbefifo" where
  "sbefifo_remove s = (tick_fatal (- ENODEV) s)\<lparr>poll_timer := None\<rparr>"

subsection \<open>Example platform and states\<close>

text \<open>
  A device that always answers: the up status register reports four entries in the up
  FIFO, so four free slots; the down status register reports no entry; every other read
  returns 0 and every write is accepted.
\<close>

definition quiet_read :: "nat \<Rightarrow> u32" where
  "quiet_read reg = (if reg = (SBEFIFO_UP OR SBEFIFO_STS) then 0x00040000 else 0)"

definition dev4 :: "unit platform" where
  "dev4 =
     \<lparr>fsi_device_read = (\<lambda>d reg. (0, quiet_read reg, d)),
      fsi_device_write = (\<lambda>d reg w. (0, d)),
      be32_to_cpu = (\<lambda>w. w),
      cpu_to_be32 = (\<lambda>w. w),
      msecs_to_jiffies = (\<lambda>n. of_nat n)\<rparr>"

text \<open>The device structure after a successful probe.\<close>

definition sbe0 :: "unit sbefifo" where
  "sbe0 = \<lparr>fsi_dev = (), poll_timer = None, xfrs = [], rc = 0,
            xfr_mem = Map.empty, client_mem = Map.empty\<rparr>"

definition words :: "nat \<Rightarrow> u32 list" where
  "words n = map of_nat [1..<Suc n]"

text \<open>
  A client opened with \<open>O_NONBLOCK\<close> (\<open>nb1\<close>) writes 32 words in one call: the call
  enqueues transfer 0 (\<open>nb2\<close>) and its only loop iteration fills the write ring
  (\<open>nb3\<close>).
\<close>

definition nb1 :: "unit sbefifo" where
  "nb1 = snd (sbefifo_open (Some 0) True sbe0)"

definition nb2 :: "wr_call \<times> unit sbefifo" where
  "nb2 = (case the (sbefifo_write_common_enter 0 (Some 0) 0 False (words 32) 128 nb1) of
            (r, s) \<Rightarrow> (projr r, s))"

definition nb3 :: "unit sbefifo" where
  "nb3 = snd (the (sbefifo_write_common_iter 0 (fst nb2) (snd nb2)))"

subsection \<open>Well-formed buffers\<close>

text \<open>
  A buffer with 32 words of storage and cursors in range; the words it holds, counted
  around the end of the storage; the words a drain takes from it, in order.
\<close>

definition buf_ok :: "sbefifo_buf \<Rightarrow> bool" where
  "buf_ok b = (buf_wf b \<and> length (buf b) = SBEFIFO_BUF_CNT)"

definition buf_used :: "sbefifo_buf \<Rightarrow> nat" where
  "buf_used b = (if buf_full b then 32 else (wpos b + 32 - rpos b) mod 32)"

definition ring_take :: "sbefifo_buf \<Rightarrow> nat \<Rightarrow> u32 list" where
  "ring_take b k = map (\<lambda>i. buf b ! ((rpos b + i) mod 32)) [0..<k]"

definition ring_drop :: "sbefifo_buf \<Rightarrow> nat \<Rightarrow> sbefifo_buf" where
  "ring_drop b k =
     (if k = 0 then b else b\<lparr>buf_full := False, rpos := (rpos b + k) mod 32\<rparr>)"

text \<open>
  A device with an up FIFO of 8 entries: its state is the number of entries in that FIFO.
  A status read reports them, a write to the FIFO adds one (the FIFO takes no more than
  8). Nothing arrives on the down FIFO. \<open>fifo_free\<close> is the number of free slots.
\<close>

definition fifo_free :: "nat \<Rightarrow> nat" where
  "fifo_free d = 8 - d"

definition fifo_dev :: "nat platform" where
  "fifo_dev =
     \<lparr>fsi_device_read =
        (\<lambda>d reg. (0, if reg = (SBEFIFO_UP OR SBEFIFO_STS) then push_bit 16 (of_nat (min 8 d))
                      else 0, d)),
      fsi_device_write = (\<lambda>d reg w. (0, if reg = SBEFIFO_UP then min 8 (Suc d) else d)),
      be32_to_cpu = (\<lambda>w. w),
      cpu_to_be32 = (\<lambda>w. w),
      msecs_to_jiffies = (\<lambda>n. of_nat n)\<rparr>"

text \<open>
  A blocking client writes 8 words in one call while the up FIFO holds 4 entries
  (\<open>fifo8_1\<close> after the open, \<open>fifo8_2\<close> after the transfer is enqueued, \<open>fifo8_3\<close> after
  the only loop iteration).
\<close>

definition fifo8_1 :: "nat sbefifo" where
  "fifo8_1 =
     snd (sbefifo_open (Some 0) False
            \<lparr>fsi_dev = 4, poll_timer = None, xfrs = [], rc = 0,
             xfr_mem = Map.empty, client_mem = Map.empty\<rparr>)"

definition fifo8_2 :: "wr_call \<times> nat sbefifo" where
  "fifo8_2 = (case the (sbefifo_write_common_enter 0 (Some 0) 0 False (words 8) 32 fifo8_1) of
                (r, s) \<Rightarrow> (projr r, s))"

definition fifo8_3 :: "nat sbefifo" where
  "fifo8_3 = snd (the (sbefifo_write_common_iter 0 (fst fifo8_2) (snd fifo8_2)))"

text \<open>
  Two blocking clients 0 and 1 each write one word (transfer 0 of client 0 is enqueued
  first, then transfer 1 of client 1); the timer function runs at time 0 and again at
  time 6000.
\<close>

definition two_1 :: "unit sbefifo" where
  "two_1 = snd (sbefifo_open (Some 1) False (snd (sbefifo_open (Some 0) False sbe0)))"

definition two_2 :: "wr_call \<times> unit sbefifo" where
  "two_2 = (case the (sbefifo_write_common_enter 0 (Some 0) 0 False [7] 4 two_1) of
              (r, s) \<Rightarrow> (projr r, s))"

definition two_3 :: "unit sbefifo" where
  "two_3 = snd (the (sbefifo_write_common_iter 0 (fst two_2) (snd two_2)))"

definition two_4 :: "wr_call \<times> unit sbefifo" where
  "two_4 = (case the (sbefifo_write_common_enter 0 (Some 1) 1 False [9] 4 two_3) of
              (r, s) \<Rightarrow> (projr r, s))"

definition two_5 :: "unit sbefifo" where
  "two_5 = snd (the (sbefifo_write_common_iter 0 (fst two_4) (snd two_4)))"

definition two_6 :: "unit sbefifo" where
  "two_6 = snd (the (sbefifo_poll_timer dev4 0 two_5))"

definition two_7 :: "unit sbefifo" where
  "two_7 = snd (the (sbefifo_poll_timer dev4 6000 two_6))"

subsection \<open>A record of what happens to the queue\<close>

text \<open>
  The functions that link a transfer into the global queue, unlink one, or access the
  device, once more with a record of what they did. An event is recorded at the place
  where the C code acts:
  \<^item> \<open>Ev_enq x\<close>: \<open>sbefifo_enq_xfr\<close> has allocated transfer \<open>x\<close> and linked it at the
    tail of the queue;
  \<^item> \<open>Ev_access x a\<close>: the timer function made device access \<open>a\<close> while it worked on
    transfer \<open>x\<close>, that is with the flags of \<open>x\<close> and the rings \<open>x->rbuf\<close> and
    \<open>x->wbuf\<close>;
  \<^item> \<open>Ev_complete x\<close>: the timer function acknowledged end-of-transfer, set
    \<open>SBEFIFO_XFR_COMPLETE\<close> on \<open>x\<close> and unlinked it;
  \<^item> \<open>Ev_discard x\<close>: \<open>sbefifo_next_xfr\<close> found \<open>x\<close> cancelled at the head of the queue,
    unlinked it and freed it;
  \<^item> \<open>Ev_flushed x\<close>: the fatal path of the timer function, or \<open>sbefifo_remove\<close>, unlinked
    \<open>x\<close> and freed it.

  Each function with a record returns the events in the order they happened, and
  otherwise what the function without the record returns (lemmas
  \<open>next_xfr_ev_erase\<close>, \<open>poll_timer_ev_erase\<close>, \<open>write_enter_ev_erase\<close>).
\<close>

datatype event =
    Ev_enq nat
  | Ev_access nat fsi_access
  | Ev_complete nat
  | Ev_discard nat
  | Ev_flushed nat

fun next_xfr_scan_ev ::
  "(nat \<rightharpoonup> sbefifo_xfr) \<Rightarrow> nat list \<Rightarrow>
   (event list \<times> (nat \<rightharpoonup> sbefifo_xfr) \<times> nat list) option" where
  "next_xfr_scan_ev m [] = Some ([], m, [])"
| "next_xfr_scan_ev m (x # q) =
     (case m x of
        None \<Rightarrow> None
      | Some xfr \<Rightarrow>
          if xfr_cancel xfr
          then map_option (\<lambda>(evs, r). (Ev_discard x # evs, r))
                 (next_xfr_scan_ev (m(x := None)) q)
          else Some ([], m, x # q))"

definition sbefifo_next_xfr_ev ::
  "'d sbefifo \<Rightarrow> (event list \<times> nat option \<times> 'd sbefifo) option" where
  "sbefifo_next_xfr_ev s =
     (case next_xfr_scan_ev (xfr_mem s) (xfrs s) of
        None \<Rightarrow> None
      | Some (evs, m, q) \<Rightarrow>
          Some (evs, case q of [] \<Rightarrow> None | x # _ \<Rightarrow> Some x, s\<lparr>xfrs := q, xfr_mem := m\<rparr>))"

text \<open>
  The timer function from the cancel test to the end of the fill loop, for the transfer
  at address \<open>x\<close>: its flags are read from \<open>x\<close>, its rings are the ones \<open>x\<close> points to,
  the results are stored back through \<open>x\<close>, and every device access made on the way is
  recorded for \<open>x\<close>.
\<close>

definition tick_serve ::
  "'d platform \<Rightarrow> ulong \<Rightarrow> 'd sbefifo \<Rightarrow> nat \<Rightarrow> (event list \<times> tick_exit \<times> 'd sbefifo) option" where
  "tick_serve P jiffies s x =
     (case xfr_mem s x of
        None \<Rightarrow> None
      | Some xfr \<Rightarrow>
          (case tick_bufs s xfr of
             None \<Rightarrow> None
           | Some (rb, wb) \<Rightarrow>
               (let xfr1 = (if xfr_cancel xfr \<and> \<not> xfr_resp_pending xfr
                            then xfr\<lparr>xfr_write_done := True\<rparr> else xfr)
                in case tick_transfer P jiffies (fsi_dev s, []) rb wb xfr1 of
                     None \<Rightarrow> None
                   | Some (ex, f, rb1, wb1, xfr2) \<Rightarrow>
                       Some (map (Ev_access x) (snd f), ex,
                             tick_store s x xfr2 rb1 wb1 (fst f)))))"

definition tick_finish_ev ::
  "'d platform \<Rightarrow> ulong \<Rightarrow> nat \<Rightarrow> tick_exit \<Rightarrow> 'd sbefifo \<Rightarrow>
   (event list \<times> 'd sbefifo) option" where
  "tick_finish_ev P jiffies x ex s =
     (case ex of
        Goto_out_unlock \<Rightarrow> Some ([], s\<lparr>poll_timer := Some (jiffies + SBEFIFO_RESCHEDULE P)\<rparr>)
      | Goto_out ret \<Rightarrow>
          Some (if ret \<noteq> 0 then (map Ev_flushed (xfrs s), tick_fatal ret s) else ([], s))
      | Loop_done \<Rightarrow> Some ([], s)
      | Loop_break \<Rightarrow>
          (case tick_complete x s of
             None \<Rightarrow> None
           | Some s1 \<Rightarrow>
               (case sbefifo_next_xfr_ev s1 of
                  None \<Rightarrow> None
                | Some (evs, nx, s2) \<Rightarrow>
                    Some (Ev_complete x # evs,
                          if nx \<noteq> None then s2\<lparr>poll_timer := Some jiffies\<rparr> else s2))))"

definition sbefifo_poll_timer_ev ::
  "'d platform \<Rightarrow> ulong \<Rightarrow> 'd sbefifo \<Rightarrow> (event list \<times> 'd sbefifo) option" where
  "sbefifo_poll_timer_ev P jiffies s0 =
     (let s = s0\<lparr>poll_timer := None\<rparr> in
      case xfrs s of
        [] \<Rightarrow> Some ([], s)
      | x # q \<Rightarrow>
          (case tick_serve P jiffies s x of
             None \<Rightarrow> None
           | Some (evs, ex, s1) \<Rightarrow>
               map_option (\<lambda>(evs1, s2). (evs @ evs1, s2)) (tick_finish_ev P jiffies x ex s1)))"

definition sbefifo_write_common_enter_ev ::
  "ulong \<Rightarrow> nat option \<Rightarrow> nat \<Rightarrow> bool \<Rightarrow> u32 list \<Rightarrow> size_t \<Rightarrow> 'd sbefifo \<Rightarrow>
   (event list \<times> (int + wr_call) \<times> 'd sbefifo) option" where
  "sbefifo_write_common_enter_ev jiffies kzalloc c user data len s =
     (if push_bit 2 (drop_bit 2 len) \<noteq> len then Some ([], Inl (- EINVAL), s)
      else if len = 0 then Some ([], Inl 0, s)
      else
        (case sbefifo_get_client c s of
           None \<Rightarrow> None
         | Some s1 \<Rightarrow>
             (case client_mem s1 c of
                None \<Rightarrow> None
              | Some cl \<Rightarrow>
                  (let n = sbefifo_buf_nbwriteable (wbuf cl) in
                   case sbefifo_next_xfr_ev s1 of
                     None \<Rightarrow> None
                   | Some (evs, xfr, s2) \<Rightarrow>
                       if o_nonblock cl \<and> xfr \<noteq> None \<and> n < len
                       then map_option (Pair evs) (call_out jiffies c (Inl (- EAGAIN)) s2)
                       else
                         (case sbefifo_enq_xfr kzalloc c s2 of
                            None \<Rightarrow> None
                          | Some (Inl e, s3) \<Rightarrow>
                              map_option (Pair evs) (call_out jiffies c (Inl e) s3)
                          | Some (Inr x, s3) \<Rightarrow>
                              Some (evs @ [Ev_enq x],
                                    Inr \<lparr>w_client = c, w_xfr = x, w_user = user,
                                         w_data = data, w_len = len, w_ret = 0\<rparr>, s3))))))"

definition sbefifo_remove_ev :: "'d sbefifo \<Rightarrow> event list \<times> 'd sbefifo" where
  "sbefifo_remove_ev s = (map Ev_flushed (xfrs s), sbefifo_remove s)"

fun accesses :: "event list \<Rightarrow> fsi_access list" where
  "accesses [] = []"
| "accesses (Ev_access x a # evs) = a # accesses evs"
| "accesses (e # evs) = accesses evs"

subsection \<open>The driver in use\<close>

text \<open>
  The driver's state together with the calls that sleep in a wait, the clients whose
  handle is open, the allocator (an address is handed out once) and the record of the
  events so far, newest first. The record is not read by any driver function.

  An operation is one entry into the driver: an open, the part of a read or write up to
  its wait, the continuation of a sleeping call whose wait condition holds, a signal to
  a sleeping call, a release, an expiry of the poll timer, the removal of the device. The
  arguments of an operation are what the environment decides: the time, whether an
  allocation succeeds, the caller's buffer and whether it faults, and for a read the
  words that lie behind the storage of the read ring.
\<close>

datatype sleeper = Writer wr_call | Reader rd_call

record 'd sys =
  sbe :: "'d sbefifo"
  sleeping :: "sleeper list"
  handles :: "nat list"
  next_xfr_addr :: nat
  next_client_addr :: nat
  trace :: "event list"

datatype op =
    Op_open bool bool
  | Op_drv_open bool bool
  | Op_write ulong bool nat bool "u32 list" size_t
  | Op_write_wake ulong wr_call
  | Op_write_signal ulong wr_call
  | Op_read nat bool size_t
  | Op_read_wake ulong "nat \<Rightarrow> u32" rd_call
  | Op_read_signal ulong rd_call
  | Op_release ulong nat
  | Op_tick ulong
  | Op_remove

definition logged :: "'d sys \<Rightarrow> event list \<Rightarrow> 'd sbefifo \<Rightarrow> 'd sys" where
  "logged y evs s1 = y\<lparr>sbe := s1, trace := rev evs @ trace y\<rparr>"

definition kzalloc_at :: "bool \<Rightarrow> nat \<Rightarrow> nat option" where
  "kzalloc_at ok a = (if ok then Some a else None)"

fun sys_step :: "'d platform \<Rightarrow> op \<Rightarrow> 'd sys \<Rightarrow> 'd sys option" where
  "sys_step P (Op_open ok nonblock) y =
     (case sbefifo_open (kzalloc_at ok (next_client_addr y)) nonblock (sbe y) of
        ((r, co), s1) \<Rightarrow>
          Some ((logged y [] s1)
            \<lparr>handles := (case co of None \<Rightarrow> handles y | Some c \<Rightarrow> c # handles y),
             next_client_addr := Suc (next_client_addr y)\<rparr>))"
| "sys_step P (Op_drv_open ok nonblock) y =
     (case sbefifo_drv_open (kzalloc_at ok (next_client_addr y)) nonblock (sbe y) of
        (co, s1) \<Rightarrow>
          Some ((logged y [] s1)
            \<lparr>handles := (case co of None \<Rightarrow> handles y | Some c \<Rightarrow> c # handles y),
             next_client_addr := Suc (next_client_addr y)\<rparr>))"
| "sys_step P (Op_write jiffies ok c user data len) y =
     (if c \<notin> set (handles y) then None
      else
        (case sbefifo_write_common_enter_ev jiffies (kzalloc_at ok (next_xfr_addr y)) c user
                data len (sbe y) of
           None \<Rightarrow> None
         | Some (evs, r, s1) \<Rightarrow>
             Some ((logged y evs s1)
               \<lparr>sleeping := (case r of Inl _ \<Rightarrow> sleeping y | Inr w \<Rightarrow> Writer w # sleeping y),
                next_xfr_addr := Suc (next_xfr_addr y)\<rparr>)))"
| "sys_step P (Op_write_wake jiffies w) y =
     (if Writer w \<notin> set (sleeping y) then None
      else
        (case sbefifo_write_ready (sbe y) (w_xfr w) (w_client w) of
           None \<Rightarrow> None
         | Some (ready, n) \<Rightarrow>
             if \<not> ready then None
             else
               (case sbefifo_write_common_iter jiffies w (sbe y) of
                  None \<Rightarrow> None
                | Some (r, s1) \<Rightarrow>
                    Some ((logged y [] s1)
                      \<lparr>sleeping :=
                         (case r of
                            Inl _ \<Rightarrow> remove1 (Writer w) (sleeping y)
                          | Inr w1 \<Rightarrow> Writer w1 # remove1 (Writer w) (sleeping y))\<rparr>))))"
| "sys_step P (Op_write_signal jiffies w) y =
     (if Writer w \<notin> set (sleeping y) then None
      else
        (case sbefifo_write_common_intr jiffies w (sbe y) of
           None \<Rightarrow> None
         | Some (r, s1) \<Rightarrow>
             Some ((logged y [] s1)\<lparr>sleeping := remove1 (Writer w) (sleeping y)\<rparr>)))"
| "sys_step P (Op_read c user_fault len) y =
     (if c \<notin> set (handles y) then None
      else
        (case sbefifo_read_common_enter c user_fault len (sbe y) of
           None \<Rightarrow> None
         | Some (r, s1) \<Rightarrow>
             Some ((logged y [] s1)
               \<lparr>sleeping := (case r of Inl _ \<Rightarrow> sleeping y | Inr rd \<Rightarrow> Reader rd # sleeping y)\<rparr>)))"
| "sys_step P (Op_read_wake jiffies past rd) y =
     (if Reader rd \<notin> set (sleeping y) then None
      else
        (case sbefifo_read_ready (sbe y) (r_client rd) of
           None \<Rightarrow> None
         | Some (ready, n, ret) \<Rightarrow>
             if \<not> ready then None
             else
               (case sbefifo_read_common_body jiffies past rd (sbe y) of
                  None \<Rightarrow> None
                | Some (r, s1) \<Rightarrow>
                    Some ((logged y [] s1)\<lparr>sleeping := remove1 (Reader rd) (sleeping y)\<rparr>))))"
| "sys_step P (Op_read_signal jiffies rd) y =
     (if Reader rd \<notin> set (sleeping y) then None
      else
        (case sbefifo_read_common_intr jiffies rd (sbe y) of
           None \<Rightarrow> None
         | Some (r, s1) \<Rightarrow>
             Some ((logged y [] s1)\<lparr>sleeping := remove1 (Reader rd) (sleeping y)\<rparr>)))"
| "sys_step P (Op_release jiffies c) y =
     (if c \<notin> set (handles y) then None
      else
        (case sbefifo_release jiffies c (sbe y) of
           None \<Rightarrow> None
         | Some (r, s1) \<Rightarrow> Some ((logged y [] s1)\<lparr>handles := remove1 c (handles y)\<rparr>)))"
| "sys_step P (Op_tick jiffies) y =
     (if poll_timer (sbe y) = None then None
      else
        (case sbefifo_poll_timer_ev P jiffies (sbe y) of
           None \<Rightarrow> None
         | Some (evs, s1) \<Rightarrow> Some (logged y evs s1)))"
| "sys_step P Op_remove y =
     (case sbefifo_remove_ev (sbe y) of (evs, s1) \<Rightarrow> Some (logged y evs s1))"

definition sys_init :: "'d \<Rightarrow> 'd sys" where
  "sys_init d =
     \<lparr>sbe = \<lparr>fsi_dev = d, poll_timer = None, xfrs = [], rc = 0,
             xfr_mem = Map.empty, client_mem = Map.empty\<rparr>,
      sleeping = [], handles = [], next_xfr_addr = 0, next_client_addr = 0, trace = []\<rparr>"

inductive reach :: "'d platform \<Rightarrow> 'd sys \<Rightarrow> bool" for P :: "'d platform" where
  reach_init: "reach P (sys_init d)"
| reach_step: "reach P y \<Longrightarrow> sys_step P op y = Some y1 \<Longrightarrow> reach P y1"

fun run :: "'d platform \<Rightarrow> op list \<Rightarrow> 'd sys \<Rightarrow> 'd sys option" where
  "run P [] y = Some y"
| "run P (op # ops) y = (case sys_step P op y of None \<Rightarrow> None | Some y1 \<Rightarrow> run P ops y1)"

text \<open>The transfers enqueued and not yet gone, oldest first, as the record tells.\<close>

fun pending :: "event list \<Rightarrow> nat list" where
  "pending [] = []"
| "pending (Ev_enq x # tr) = pending tr @ [x]"
| "pending (Ev_complete x # tr) = removeAll x (pending tr)"
| "pending (Ev_discard x # tr) = removeAll x (pending tr)"
| "pending (Ev_flushed x # tr) = removeAll x (pending tr)"
| "pending (Ev_access x a # tr) = pending tr"

fun is_flushed :: "event \<Rightarrow> bool" where
  "is_flushed (Ev_flushed x) = True"
| "is_flushed _ = False"

text \<open>
  Every device access was made for the oldest transfer then pending, at a time when no
  transfer had been flushed by the fatal path.
\<close>

fun fifo_served :: "event list \<Rightarrow> bool" where
  "fifo_served [] = True"
| "fifo_served (Ev_access x a # tr) =
     ((case pending tr of [] \<Rightarrow> False | h # _ \<Rightarrow> h = x) \<and> \<not> list_ex is_flushed tr \<and>
      fifo_served tr)"
| "fifo_served (e # tr) = fifo_served tr"

subsection \<open>Abstractions used by the invariants\<close>

text \<open>
  The reference count of a client, the part of the device state that a function leaves
  alone, the queue that a record of events describes, and the invariant that ties the
  record to the queue of the device.  \<open>enq_ids\<close> lists the transfers a record enqueued,
  newest first; \<open>apply_ev\<close> is the effect of one event on the queue.
\<close>

definition krefs :: "'d sbefifo \<Rightarrow> nat \<Rightarrow> nat option" where
  "krefs s c = map_option kref (client_mem s c)"

text \<open>What a function leaves of the error code and the queue.\<close>

definition q_same :: "'d sbefifo \<Rightarrow> 'd sbefifo \<Rightarrow> bool" where
  "q_same s s1 = (rc s1 = rc s \<and> xfrs s1 = xfrs s)"

definition q_drop :: "'d sbefifo \<Rightarrow> 'd sbefifo \<Rightarrow> bool" where
  "q_drop s s1 = (rc s1 = rc s \<and> (\<exists>k. xfrs s1 = drop k (xfrs s)))"

fun enq_ids :: "event list \<Rightarrow> nat list" where
  "enq_ids [] = []"
| "enq_ids (Ev_enq x # tr) = x # enq_ids tr"
| "enq_ids (e # tr) = enq_ids tr"

fun apply_ev :: "nat list \<Rightarrow> event \<Rightarrow> nat list" where
  "apply_ev q (Ev_enq x) = q @ [x]"
| "apply_ev q (Ev_complete x) = removeAll x q"
| "apply_ev q (Ev_discard x) = removeAll x q"
| "apply_ev q (Ev_flushed x) = removeAll x q"
| "apply_ev q (Ev_access x a) = q"

text \<open>
  The events of unlinking the transfers \<open>l\<close> from the front of the queue when no error
  is latched: the first one completed or discarded, the others discarded.
\<close>

definition unlinked :: "bool \<Rightarrow> nat list \<Rightarrow> event list" where
  "unlinked completed l =
     (case l of
        [] \<Rightarrow> []
      | x # l' \<Rightarrow> (if completed then Ev_complete x else Ev_discard x) # map Ev_discard l')"

definition inv_queue :: "'d sys \<Rightarrow> bool" where
  "inv_queue y =
     (pending (trace y) = xfrs (sbe y) \<and> distinct (xfrs (sbe y)) \<and>
      list_all (\<lambda>x. x < next_xfr_addr y) (xfrs (sbe y)) \<and>
      (if rc (sbe y) \<noteq> 0 then xfrs (sbe y) = [] else \<not> list_ex is_flushed (trace y)) \<and>
      fifo_served (trace y) \<and>
      list_all (\<lambda>x. x < next_xfr_addr y) (enq_ids (trace y)) \<and> distinct (enq_ids (trace y)))"

text \<open>
  The shape of one step: the events it records, and what it does to the queue, the error
  code and the allocator of transfers.
\<close>

definition step_shape :: "'d sys \<Rightarrow> event list \<Rightarrow> 'd sys \<Rightarrow> bool" where
  "step_shape y evs y1 =
     (trace y1 = rev evs @ trace y \<and> next_xfr_addr y \<le> next_xfr_addr y1 \<and>
      (\<exists>acc. (xfrs (sbe y) = [] \<longrightarrow> acc = []) \<and>
         ((rc (sbe y1) = rc (sbe y) \<and>
           (\<exists>k n b. xfrs (sbe y1) = drop k (xfrs (sbe y)) @ n \<and>
              evs = map (Ev_access (hd (xfrs (sbe y)))) acc @
                    unlinked b (take k (xfrs (sbe y))) @ map Ev_enq n \<and>
              (n = [] \<or> (n = [next_xfr_addr y] \<and> next_xfr_addr y1 = Suc (next_xfr_addr y) \<and>
                          rc (sbe y) = 0)))) \<or>
          (rc (sbe y1) \<noteq> 0 \<and> xfrs (sbe y1) = [] \<and>
           evs = map (Ev_access (hd (xfrs (sbe y)))) acc @ map Ev_flushed (xfrs (sbe y))))))"

fun is_access :: "event \<Rightarrow> bool" where
  "is_access (Ev_access x a) = True"
| "is_access _ = False"






text \<open>Taking and dropping a reference to client \<open>c\<close>, as seen in the reference counts.\<close>

definition k_get :: "nat \<Rightarrow> 'd sbefifo \<Rightarrow> 'd sbefifo \<Rightarrow> bool" where
  "k_get c s s1 = (\<exists>k. krefs s c = Some k \<and> krefs s1 = (krefs s)(c \<mapsto> Suc k))"

definition k_put :: "nat \<Rightarrow> 'd sbefifo \<Rightarrow> 'd sbefifo \<Rightarrow> bool" where
  "k_put c s s1 =
     (\<exists>k. krefs s c = Some (Suc k) \<and> krefs s1 = (krefs s)(c := if k = 0 then None else Some k))"

text \<open>
  Who holds a reference to a client: its open handle, and every call that sleeps in a
  wait of \<open>sbefifo_read_common\<close> or \<open>sbefifo_write_common\<close> on it.
\<close>

fun sleeper_client :: "sleeper \<Rightarrow> nat" where
  "sleeper_client (Writer w) = w_client w"
| "sleeper_client (Reader r) = r_client r"

definition holders_of :: "nat list \<Rightarrow> sleeper list \<Rightarrow> nat \<Rightarrow> nat" where
  "holders_of hs sl c = count_list hs c + length (filter (\<lambda>s. sleeper_client s = c) sl)"

definition holders :: "'d sys \<Rightarrow> nat \<Rightarrow> nat" where
  "holders y = holders_of (handles y) (sleeping y)"

definition inv_refs :: "'d sys \<Rightarrow> bool" where
  "inv_refs y =
     ((\<forall>c. krefs (sbe y) c = (if holders y c = 0 then None else Some (holders y c))) \<and>
      (\<forall>c. next_client_addr y \<le> c \<longrightarrow> holders y c = 0))"

definition blocking :: "'d sbefifo \<Rightarrow> nat \<Rightarrow> bool" where
  "blocking s c = (case client_mem s c of None \<Rightarrow> False | Some cl \<Rightarrow> \<not> o_nonblock cl)"

text \<open>
  One blocking client writes one word to a device that never answers; the timer function
  runs at time 0 and again after the data timeout has passed.
\<close>

definition latch_ops :: "op list" where
  "latch_ops =
     [Op_open True False,
      Op_write 0 True 0 False [7] 4,
      Op_write_wake 0 \<lparr>w_client = 0, w_xfr = 0, w_user = False, w_data = [7], w_len = 4,
                       w_ret = 0\<rparr>,
      Op_tick 0, Op_tick 6000]"

definition timed_out :: "unit sys" where
  "timed_out = the (run dev4 latch_ops (sys_init ()))"

section \<open>Ring buffer properties\<close>

lemma unat_drop_bit_2: "unat (drop_bit 2 (n :: size_t)) = unat n div 4"
  by (simp add: drop_bit_eq_div unat_div)

lemma unat_push_bit_2: "k < 2 ^ 62 \<Longrightarrow> unat (push_bit 2 (of_nat k :: size_t)) = 4 * k"
  by (simp add: push_bit_eq_mult unat_word_ariths unat_of_nat take_bit_nat_eq_self)

lemma unat_push_bit_2_diff:
  assumes "j \<le> k" and "k < 2 ^ 62"
  shows "unat (push_bit 2 ((of_nat k :: size_t) - of_nat j)) = 4 * (k - j)"
proof -
  have "(of_nat k :: size_t) - of_nat j = of_nat (k - j)"
    using assms(1) by simp
  moreover have "k - j < 2 ^ 62"
    using assms(2) by simp
  ultimately show ?thesis
    by (simp only: unat_push_bit_2)
qed

lemma unat_nbreadable:
  assumes "buf_wf b"
  shows "unat (sbefifo_buf_nbreadable b) =
         (if buf_full b then 128
          else if rpos b \<le> wpos b then 4 * (wpos b - rpos b) else 4 * (32 - rpos b))"
proof -
  have r: "rpos b < 32" and w: "wpos b < 32"
    using assms by (simp_all add: buf_wf_def SBEFIFO_BUF_CNT_def)
  have full: "unat (push_bit 2 (32 :: size_t)) = 128"
    by simp
  have a: "rpos b \<le> wpos b \<Longrightarrow>
      unat (push_bit 2 ((of_nat (wpos b) :: size_t) - of_nat (rpos b))) = 4 * (wpos b - rpos b)"
    using w by (intro unat_push_bit_2_diff) simp_all
  have c: "unat (push_bit 2 ((of_nat 32 :: size_t) - of_nat (rpos b))) = 4 * (32 - rpos b)"
    using r by (intro unat_push_bit_2_diff) simp_all
  show ?thesis
  proof (cases "buf_full b")
    case True
    then show ?thesis
      using full by (simp add: sbefifo_buf_nbreadable_def SBEFIFO_BUF_CNT_def)
  next
    case False
    then show ?thesis
      using a c by (simp add: sbefifo_buf_nbreadable_def SBEFIFO_BUF_CNT_def)
  qed
qed

lemma unat_nbwriteable:
  assumes "buf_wf b"
  shows "unat (sbefifo_buf_nbwriteable b) =
         (if buf_full b then 0
          else if wpos b < rpos b then 4 * (rpos b - wpos b) else 4 * (32 - wpos b))"
proof -
  have r: "rpos b < 32" and w: "wpos b < 32"
    using assms by (simp_all add: buf_wf_def SBEFIFO_BUF_CNT_def)
  have a: "wpos b < rpos b \<Longrightarrow>
      unat (push_bit 2 ((of_nat (rpos b) :: size_t) - of_nat (wpos b))) = 4 * (rpos b - wpos b)"
    using r by (intro unat_push_bit_2_diff) simp_all
  have c: "unat (push_bit 2 ((of_nat 32 :: size_t) - of_nat (wpos b))) = 4 * (32 - wpos b)"
    using w by (intro unat_push_bit_2_diff) simp_all
  show ?thesis
  proof (cases "buf_full b")
    case True
    then show ?thesis
      by (simp add: sbefifo_buf_nbwriteable_def)
  next
    case False
    then show ?thesis
      using a c by (simp add: sbefifo_buf_nbwriteable_def SBEFIFO_BUF_CNT_def)
  qed
qed

lemma buf_wf_init: "buf_wf (sbefifo_buf_init b)"
  by (simp add: buf_wf_def sbefifo_buf_init_def SBEFIFO_BUF_CNT_def)

lemma buf_wf_wrotenb:
  assumes wf: "buf_wf b" and le: "a \<le> sbefifo_buf_nbwriteable b"
  shows "buf_wf (snd (sbefifo_buf_wrotenb b a))"
proof -
  have "unat a \<le> unat (sbefifo_buf_nbwriteable b)"
    using le by (simp add: word_le_nat_alt)
  then have "unat a div 4 \<le> unat (sbefifo_buf_nbwriteable b) div 4"
    by (rule div_le_mono)
  then show ?thesis
    using wf unat_nbwriteable [OF wf]
    by (auto simp: buf_wf_def sbefifo_buf_wrotenb_def Let_def unat_drop_bit_2
        SBEFIFO_BUF_CNT_def split: if_splits)
qed

lemma buf_wf_readnb:
  assumes wf: "buf_wf b" and rng: "rpos b + unat (drop_bit 2 n) \<le> SBEFIFO_BUF_CNT"
  shows "buf_wf (snd (sbefifo_buf_readnb b n))"
proof (cases "n = 0")
  case True
  then show ?thesis
    using wf by (simp add: buf_wf_def sbefifo_buf_readnb_def Let_def SBEFIFO_BUF_CNT_def)
next
  case False
  then show ?thesis
    using wf rng
    by (auto simp: buf_wf_def sbefifo_buf_readnb_def Let_def SBEFIFO_BUF_CNT_def)
qed

lemma ring_reach_wf: "ring_reach b \<Longrightarrow> buf_wf b"
  by (induction rule: ring_reach.induct)
     (simp_all add: buf_wf_init buf_wf_wrotenb buf_wf_readnb)

lemma ring_reach_moved: "ring_reach ring_moved"
  unfolding ring_moved_def
proof (rule ring_read)
  show "ring_reach (snd (sbefifo_buf_wrotenb (sbefifo_buf_init ring0) 16))"
    by (rule ring_wrote [OF ring_init])
       (simp add: sbefifo_buf_nbwriteable_def sbefifo_buf_init_def ring0_def
         SBEFIFO_BUF_CNT_def)
  show "16 \<le> sbefifo_buf_nbreadable (snd (sbefifo_buf_wrotenb (sbefifo_buf_init ring0) 16))"
    by (simp add: sbefifo_buf_nbreadable_def sbefifo_buf_wrotenb_def sbefifo_buf_init_def
        ring0_def SBEFIFO_BUF_CNT_def)
  show "rpos (snd (sbefifo_buf_wrotenb (sbefifo_buf_init ring0) 16)) + unat (drop_bit 2 (16 :: size_t))
        \<le> SBEFIFO_BUF_CNT"
    by (simp add: sbefifo_buf_wrotenb_def sbefifo_buf_init_def ring0_def SBEFIFO_BUF_CNT_def)
qed

lemma ring_reach_filled: "ring_reach ring_filled"
  unfolding ring_filled_def
  by (rule ring_wrote [OF ring_init])
     (simp add: sbefifo_buf_nbwriteable_def sbefifo_buf_init_def ring0_def SBEFIFO_BUF_CNT_def)

lemma ring_moved_eq: "ring_moved = ring0\<lparr>rpos := 4, wpos := 4\<rparr>"
  by (simp add: ring_moved_def sbefifo_buf_readnb_def sbefifo_buf_wrotenb_def
      sbefifo_buf_init_def ring0_def SBEFIFO_BUF_CNT_def)

lemma ring_filled_eq: "ring_filled = ring0\<lparr>buf_full := True\<rparr>"
  by (simp add: ring_filled_def sbefifo_buf_wrotenb_def sbefifo_buf_init_def ring0_def
      SBEFIFO_BUF_CNT_def)

text \<open>
  C2, as stated, fails: after committing four words and consuming them again (each commit
  within the bound the buffer reports) the buffer is empty with both cursors at index 4;
  it reports 0 readable and 112 writable bytes, which do not add up to the capacity of
  128 bytes.
\<close>

theorem ring_sum_counterexample:
  "ring_reach ring_moved \<and>
   16 \<le> sbefifo_buf_nbwriteable (sbefifo_buf_init ring0) \<and>
   16 \<le> sbefifo_buf_nbreadable (snd (sbefifo_buf_wrotenb (sbefifo_buf_init ring0) 16)) \<and>
   unat (sbefifo_buf_nbwriteable ring_moved) + unat (sbefifo_buf_nbreadable ring_moved) = 112"
proof -
  have "unat (sbefifo_buf_nbwriteable ring_moved) + unat (sbefifo_buf_nbreadable ring_moved)
        = 112"
    by (simp add: ring_moved_eq sbefifo_buf_nbwriteable_def sbefifo_buf_nbreadable_def
        ring0_def SBEFIFO_BUF_CNT_def)
  moreover have "16 \<le> sbefifo_buf_nbwriteable (sbefifo_buf_init ring0)"
    by (simp add: sbefifo_buf_nbwriteable_def sbefifo_buf_init_def ring0_def
        SBEFIFO_BUF_CNT_def)
  moreover have
    "16 \<le> sbefifo_buf_nbreadable (snd (sbefifo_buf_wrotenb (sbefifo_buf_init ring0) 16))"
    by (simp add: sbefifo_buf_nbreadable_def sbefifo_buf_wrotenb_def sbefifo_buf_init_def
        ring0_def SBEFIFO_BUF_CNT_def)
  ultimately show ?thesis
    using ring_reach_moved by simp
qed

text \<open>
  C2, amended: in every buffer state reached by commits within the reported bounds (a read
  commit not running past the end of the storage), the readable and the writable byte
  counts are the contiguous spans up to the end of the storage or the other cursor: their
  sum is the capacity of 128 bytes when the buffer is full and otherwise 128 less four
  times the smaller cursor index, so never more than the capacity; and the full flag is
  set exactly when no byte is writable.
\<close>

theorem ring_spans:
  assumes "ring_reach b"
  shows "unat (sbefifo_buf_nbwriteable b) + unat (sbefifo_buf_nbreadable b) =
           (if buf_full b then 128 else 128 - 4 * min (rpos b) (wpos b)) \<and>
         unat (sbefifo_buf_nbwriteable b) + unat (sbefifo_buf_nbreadable b) \<le> 128 \<and>
         (buf_full b \<longleftrightarrow> sbefifo_buf_nbwriteable b = 0)"
proof -
  have wf: "buf_wf b"
    using assms by (rule ring_reach_wf)
  then have r: "rpos b < 32" and w: "wpos b < 32"
    by (simp_all add: buf_wf_def SBEFIFO_BUF_CNT_def)
  have sum: "unat (sbefifo_buf_nbwriteable b) + unat (sbefifo_buf_nbreadable b) =
             (if buf_full b then 128 else 128 - 4 * min (rpos b) (wpos b))"
    using r w by (auto simp: unat_nbreadable [OF wf] unat_nbwriteable [OF wf] min_def)
  have "sbefifo_buf_nbwriteable b = 0 \<longleftrightarrow> unat (sbefifo_buf_nbwriteable b) = 0"
    by (simp add: unat_eq_0)
  then have full: "buf_full b \<longleftrightarrow> sbefifo_buf_nbwriteable b = 0"
    using r w by (simp add: unat_nbwriteable [OF wf])
  from sum full show ?thesis
    by simp
qed

theorem ring_spans_witness:
  "unat (sbefifo_buf_nbwriteable ring_moved) + unat (sbefifo_buf_nbreadable ring_moved) = 112 \<and>
   \<not> buf_full ring_moved \<and> sbefifo_buf_nbwriteable ring_moved \<noteq> 0"
  using ring_spans [OF ring_reach_moved] by (simp add: ring_moved_eq ring0_def)

text \<open>
  What the commit functions return, where it is as their comments say: a read commit of
  at least one byte clears the full flag; within the reported bounds, a write commit
  returns true exactly when the buffer is full afterwards, and a read commit of at least
  one word returns true exactly when nothing is readable afterwards.
\<close>

lemma readnb_clears_full: "n \<noteq> 0 \<Longrightarrow> \<not> buf_full (snd (sbefifo_buf_readnb b n))"
  by (simp add: sbefifo_buf_readnb_def Let_def)

lemma wrotenb_returns_full:
  assumes wf: "buf_wf b" and le: "a \<le> sbefifo_buf_nbwriteable b"
  shows "fst (sbefifo_buf_wrotenb b a) = buf_full (snd (sbefifo_buf_wrotenb b a))"
proof (cases "buf_full b")
  case True
  then have "unat (sbefifo_buf_nbwriteable b) = 0"
    by (simp add: unat_nbwriteable [OF wf])
  then have "a = 0"
    using le by (simp add: unat_eq_0)
  then show ?thesis
    using True wf by (simp add: sbefifo_buf_wrotenb_def Let_def buf_wf_def SBEFIFO_BUF_CNT_def)
next
  case False
  then show ?thesis
    by (auto simp: sbefifo_buf_wrotenb_def Let_def)
qed

lemma readnb_returns_empty:
  assumes wf: "buf_wf b" and n: "4 \<le> n"
    and rng: "rpos b + unat (drop_bit 2 n) \<le> SBEFIFO_BUF_CNT"
  shows "fst (sbefifo_buf_readnb b n) = (sbefifo_buf_nbreadable (snd (sbefifo_buf_readnb b n)) = 0)"
proof -
  let ?b' = "snd (sbefifo_buf_readnb b n)"
  have wf': "buf_wf ?b'"
    using wf rng by (rule buf_wf_readnb)
  have n0: "n \<noteq> 0"
    using n by auto
  have nf: "\<not> buf_full ?b'"
    using n0 by (rule readnb_clears_full)
  have w: "wpos ?b' = wpos b" and f: "fst (sbefifo_buf_readnb b n) = (rpos ?b' = wpos b)"
    using n0 by (simp_all add: sbefifo_buf_readnb_def Let_def)
  have r': "rpos ?b' < 32"
    using wf' by (simp add: buf_wf_def SBEFIFO_BUF_CNT_def)
  have "sbefifo_buf_nbreadable ?b' = 0 \<longleftrightarrow> unat (sbefifo_buf_nbreadable ?b') = 0"
    by (simp add: unat_eq_0)
  also have "\<dots> \<longleftrightarrow> rpos ?b' = wpos ?b'"
    using nf r' by (auto simp: unat_nbreadable [OF wf'])
  finally show ?thesis
    using f w by simp
qed

text \<open>
  C8 at a full buffer and \<open>n = 0\<close>: the full flag stays set and the cursors stay equal, so
  \<open>sbefifo_buf_readnb\<close> returns true although all 128 bytes are still readable.
\<close>

theorem readnb_zero_on_full:
  "ring_reach ring_filled \<and>
   (0 :: size_t) \<le> sbefifo_buf_nbreadable ring_filled \<and>
   fst (sbefifo_buf_readnb ring_filled 0) \<and>
   buf_full (snd (sbefifo_buf_readnb ring_filled 0)) \<and>
   sbefifo_buf_nbreadable (snd (sbefifo_buf_readnb ring_filled 0)) = 128"
  using ring_reach_filled
  by (simp add: ring_filled_eq ring0_def sbefifo_buf_readnb_def sbefifo_buf_nbreadable_def
      SBEFIFO_BUF_CNT_def)

section \<open>Entry checks of read and write\<close>

lemma aligned_iff: "push_bit 2 (drop_bit 2 (len :: size_t)) = len \<longleftrightarrow> 4 dvd unat len"
proof -
  have "push_bit 2 (drop_bit 2 len) + take_bit 2 len = len"
    by (rule bits_ident)
  then have "push_bit 2 (drop_bit 2 len) = len \<longleftrightarrow> take_bit 2 len = 0"
    by (metis add.right_neutral add_left_cancel)
  also have "\<dots> \<longleftrightarrow> (2 :: size_t) ^ 2 dvd len"
    by (rule take_bit_eq_0_iff)
  also have "\<dots> \<longleftrightarrow> (2 :: size_t) ^ 2 udvd len"
    by (rule exp_dvd_iff_exp_udvd)
  also have "\<dots> \<longleftrightarrow> 4 dvd unat len"
    by (simp add: udvd_iff_dvd)
  finally show ?thesis .
qed

text \<open>
  C9: a read or a write whose byte length is not a multiple of 4 returns \<open>-EINVAL\<close> from
  the first check of the call: the call does not sleep (it returns), and the state of the
  driver is unchanged, so no transfer is enqueued and no data moves. Nothing is assumed
  about the client, so this holds in blocking and in non-blocking mode.
\<close>

theorem unaligned_length_rejected:
  assumes "\<not> 4 dvd unat len"
  shows "sbefifo_read_common_enter c user_fault len s = Some (Inl (- EINVAL), s) \<and>
         sbefifo_write_common_enter jiffies kzalloc c user data len s = Some (Inl (- EINVAL), s)"
  using assms
  by (simp add: sbefifo_read_common_enter_def sbefifo_write_common_enter_def aligned_iff)

theorem unaligned_length_rejected_witness:
  "sbefifo_read_common_enter 0 False 6 nb3 = Some (Inl (- EINVAL), nb3) \<and>
   sbefifo_write_common_enter 0 (Some 1) 0 False [5, 6] 6 nb3 = Some (Inl (- EINVAL), nb3)"
  using unaligned_length_rejected [of 6 0 False nb3 0 "Some 1" False "[5, 6]"] by simp

text \<open>
  C6, as stated, fails: the non-blocking client of \<open>nb3\<close> has filled its write ring and its
  own transfer 0 is the only one in the queue. Its next write of one word returns
  \<open>-EAGAIN\<close> and enqueues nothing, although the head of the queue belongs to the caller
  and not to another client.
\<close>

theorem would_block_own_head_counterexample:
  "sbefifo_write_common_iter 0 (fst nb2) (snd nb2) \<noteq> None \<and>
   xfrs nb3 = [0] \<and>
   map_option xfr_client (xfr_mem nb3 0) = Some 0 \<and>
   map_option o_nonblock (client_mem nb3 0) = Some True \<and>
   map_option (sbefifo_buf_nbwriteable \<circ> wbuf) (client_mem nb3 0) = Some 0 \<and>
   map_option fst (sbefifo_write_common_enter 0 (Some 1) 0 False [5] 4 nb3)
     = Some (Inl (- EAGAIN)) \<and>
   map_option (xfrs \<circ> snd) (sbefifo_write_common_enter 0 (Some 1) 0 False [5] 4 nb3)
     = Some [0]"
  by code_simp

text \<open>
  C6, amended. For a live client and a length that is a non-zero multiple of 4, with \<open>q\<close>
  the queue left after \<open>sbefifo_next_xfr\<close> has discarded the cancelled transfers at its
  front: the write returns \<open>-EAGAIN\<close> exactly when the client is non-blocking, \<open>q\<close> is not
  empty (whoever owns its head) and the write ring reports fewer writable bytes than the
  length; then no transfer is enqueued, no data is copied, and the only change of state
  is the discarded transfers. In every other case the write goes on to enqueue: it
  returns the latched error code or \<open>-ENOMEM\<close>, or it has appended a new transfer and
  enters its copy loop.
\<close>

theorem write_would_block:
  assumes live: "client_mem s c = Some cl" and ref: "0 < kref cl"
    and scan: "next_xfr_scan (xfr_mem s) (xfrs s) = Some (m, q)"
    and len: "4 dvd unat len" "len \<noteq> 0"
  shows "sbefifo_write_common_enter jiffies kzalloc c user data len s =
     (if o_nonblock cl \<and> q \<noteq> [] \<and> sbefifo_buf_nbwriteable (wbuf cl) < len
      then Some (Inl (- EAGAIN), s\<lparr>xfrs := q, xfr_mem := m\<rparr>)
      else if rc s \<noteq> 0 then Some (Inl (rc s), s\<lparr>xfrs := q, xfr_mem := m\<rparr>)
      else
        (case kzalloc of
           None \<Rightarrow> Some (Inl (- ENOMEM), s\<lparr>xfrs := q, xfr_mem := m\<rparr>)
         | Some x \<Rightarrow>
             Some (Inr \<lparr>w_client = c, w_xfr = x, w_user = user, w_data = data,
                        w_len = len, w_ret = 0\<rparr>,
                   s\<lparr>xfrs := q @ [x],
                     xfr_mem := m(x \<mapsto>
                       \<lparr>wait_data_timeout = 0, xfr_client = c, xfr_write_done = False,
                        xfr_resp_pending = False, xfr_complete = False, xfr_cancel = False\<rparr>),
                     client_mem := (client_mem s)(c \<mapsto>
                       cl\<lparr>kref := kref cl + 1, client_xfrs := client_xfrs cl @ [x]\<rparr>)\<rparr>)))"
proof -
  let ?s1 = "s\<lparr>client_mem := (client_mem s)(c \<mapsto> cl\<lparr>kref := kref cl + 1\<rparr>)\<rparr>"
  let ?s2 = "?s1\<lparr>xfrs := q, xfr_mem := m\<rparr>"
  have al: "push_bit 2 (drop_bit 2 len) = len"
    using len(1) by (simp add: aligned_iff)
  have get: "sbefifo_get_client c s = Some ?s1"
    using live by (simp add: sbefifo_get_client_def)
  have nx: "sbefifo_next_xfr ?s1 = Some (case q of [] \<Rightarrow> None | x # _ \<Rightarrow> Some x, ?s2)"
    using scan by (simp add: sbefifo_next_xfr_def)
  have hd: "(case q of [] \<Rightarrow> None | x # _ \<Rightarrow> Some x) \<noteq> None \<longleftrightarrow> q \<noteq> []"
    by (cases q) simp_all
  have idem: "(client_mem s)(c \<mapsto> cl) = client_mem s"
    using live by (simp add: fun_upd_idem)
  have put: "sbefifo_put_client jiffies c ?s2 = Some (s\<lparr>xfrs := q, xfr_mem := m\<rparr>)"
    using ref by (simp add: sbefifo_put_client_def idem)
  show ?thesis
  proof (cases "o_nonblock cl \<and> q \<noteq> [] \<and> sbefifo_buf_nbwriteable (wbuf cl) < len")
    case True
    then show ?thesis
      using al len(2) get nx hd put
      by (simp add: sbefifo_write_common_enter_def call_out_def)
  next
    case False
    then show ?thesis
      using al len(2) get nx hd put
      by (cases kzalloc)
         (auto simp: sbefifo_write_common_enter_def call_out_def sbefifo_enq_xfr_def)
  qed
qed

theorem write_would_block_witness:
  "sbefifo_write_common_enter 0 (Some 1) 0 False [5] 4 nb3 =
     Some (Inl (- EAGAIN), nb3\<lparr>xfrs := [0], xfr_mem := xfr_mem nb3\<rparr>)"
proof -
  have q: "xfrs nb3 = [0]"
    by code_simp
  have x: "map_option xfr_cancel (xfr_mem nb3 0) = Some False"
    by code_simp
  have scan: "next_xfr_scan (xfr_mem nb3) (xfrs nb3) = Some (xfr_mem nb3, [0])"
    using q x by (auto simp: map_option_case split: option.splits)
  have "client_mem nb3 0 \<noteq> None"
    by code_simp
  then have cl: "client_mem nb3 0 = Some (the (client_mem nb3 0))"
    by auto
  have ref: "0 < kref (the (client_mem nb3 0))"
    by code_simp
  have nb: "o_nonblock (the (client_mem nb3 0))"
    by code_simp
  have n: "sbefifo_buf_nbwriteable (wbuf (the (client_mem nb3 0))) < 4"
    by code_simp
  have len: "4 dvd unat (4 :: size_t)" "(4 :: size_t) \<noteq> 0"
    by simp_all
  show ?thesis
    using write_would_block [OF cl ref scan len, of 0 "Some 1" False "[5]"] nb n
    by simp
qed

section \<open>The poll timer function\<close>

lemma readnb_4:
  "sbefifo_buf_readnb b 4 =
     (let r = (if rpos b + 1 = 32 then 0 else rpos b + 1)
      in (r = wpos b, b\<lparr>buf_full := False, rpos := r\<rparr>))"
  by (simp add: sbefifo_buf_readnb_def Let_def SBEFIFO_BUF_CNT_def)

lemma wrotenb_4:
  "sbefifo_buf_wrotenb b 4 =
     (let w = (if wpos b + 1 = 32 then 0 else wpos b + 1)
      in (rpos b = w, (if w = rpos b then b\<lparr>buf_full := True\<rparr> else b)\<lparr>wpos := w\<rparr>))"
  by (simp add: sbefifo_buf_wrotenb_def Let_def SBEFIFO_BUF_CNT_def)

lemma readnb_4_drop:
  assumes "buf_ok b"
  shows "snd (sbefifo_buf_readnb b 4) = ring_drop b 1"
  using assms
  by (auto simp: readnb_4 ring_drop_def buf_ok_def buf_wf_def SBEFIFO_BUF_CNT_def Let_def
      mod_Suc)

lemma ring_drop_ok:
  assumes "buf_ok b"
  shows "buf_ok (ring_drop b k)"
  using assms
  by (auto simp: ring_drop_def buf_ok_def buf_wf_def SBEFIFO_BUF_CNT_def)

lemma mod_32_if: "x < 64 \<Longrightarrow> x mod 32 = (if x < 32 then x else x - (32 :: nat))"
  by (simp add: mod_if)

lemma ring_drop_used:
  assumes "buf_ok b" and "k \<le> buf_used b"
  shows "buf_used (ring_drop b k) + k = buf_used b"
proof (cases "k = 0")
  case True
  then show ?thesis by (simp add: ring_drop_def)
next
  case False
  have r: "rpos b < 32" and w: "wpos b < 32"
    using assms(1) by (simp_all add: buf_ok_def buf_wf_def SBEFIFO_BUF_CNT_def)
  have u: "buf_used b = (if buf_full b then 32
                         else if rpos b \<le> wpos b then wpos b - rpos b
                         else wpos b + 32 - rpos b)"
    using r w by (simp add: buf_used_def mod_32_if)
  have k: "k \<le> 32"
    using assms(2) u r w by (simp split: if_splits)
  have rk: "(rpos b + k) mod 32 = (if rpos b + k < 32 then rpos b + k else rpos b + k - 32)"
    using r k by (intro mod_32_if) simp
  have full: "buf_full b \<Longrightarrow> wpos b = rpos b"
    using assms(1) by (simp add: buf_ok_def buf_wf_def)
  have "buf_used (ring_drop b k) =
          (wpos b + 32 - (if rpos b + k < 32 then rpos b + k else rpos b + k - 32)) mod 32"
    using False by (simp add: ring_drop_def buf_used_def rk)
  also have "\<dots> = (if wpos b + 32 - (if rpos b + k < 32 then rpos b + k else rpos b + k - 32) < 32
                     then wpos b + 32 - (if rpos b + k < 32 then rpos b + k else rpos b + k - 32)
                     else wpos b + 32 - (if rpos b + k < 32 then rpos b + k else rpos b + k - 32) - 32)"
    using r w k by (intro mod_32_if) (simp split: if_splits)
  finally show ?thesis
    using u r w k False full assms(2) by (auto split: if_splits)
qed

lemma ring_drop_add:
  "ring_drop (ring_drop b j) k = ring_drop b (j + k)"
  by (auto simp: ring_drop_def mod_simps add.assoc)

lemma ring_take_Suc:
  "ring_take b (Suc k) = buf b ! (rpos b mod 32) # ring_take (ring_drop b 1) k"
proof -
  have "[0..<Suc k] = 0 # map Suc [0..<k]"
    by (simp add: upt_conv_Cons map_Suc_upt del: upt_Suc)
  then show ?thesis
    by (simp add: ring_take_def ring_drop_def comp_def mod_simps del: upt_Suc)
qed

lemma buf_used_if:
  assumes "buf_ok b"
  shows "buf_used b = (if buf_full b then 32
                       else if rpos b \<le> wpos b then wpos b - rpos b
                       else wpos b + 32 - rpos b)"
proof -
  have "rpos b < 32" and "wpos b < 32"
    using assms by (simp_all add: buf_ok_def buf_wf_def SBEFIFO_BUF_CNT_def)
  then show ?thesis
    by (simp add: buf_used_def mod_32_if)
qed

lemma buf_used_le: "buf_ok b \<Longrightarrow> buf_used b \<le> 32"
  by (auto simp: buf_used_if buf_ok_def buf_wf_def SBEFIFO_BUF_CNT_def)

lemma buf_ok_wf: "buf_ok b \<Longrightarrow> buf_wf b"
  by (simp add: buf_ok_def)

lemma nbwriteable_free:
  assumes "buf_ok b"
  shows "unat (sbefifo_buf_nbwriteable b) div 4 + buf_used b \<le> 32"
  using assms unat_nbwriteable [OF buf_ok_wf [OF assms]]
  by (auto simp: buf_used_if buf_ok_def buf_wf_def SBEFIFO_BUF_CNT_def)

lemma nbreadable_used:
  assumes "buf_ok b"
  shows "unat (sbefifo_buf_nbreadable b) div 4 \<le> buf_used b"
  using assms unat_nbreadable [OF buf_ok_wf [OF assms]]
  by (auto simp: buf_used_if buf_ok_def buf_wf_def SBEFIFO_BUF_CNT_def)

lemma wrotenb_4_ok:
  assumes "buf_ok r" and "buf_used r < 32"
  shows "buf_ok (snd (sbefifo_buf_wrotenb (r\<lparr>buf := (buf r)[wpos r := x]\<rparr>) 4)) \<and>
         buf_used (snd (sbefifo_buf_wrotenb (r\<lparr>buf := (buf r)[wpos r := x]\<rparr>) 4)) = buf_used r + 1"
proof -
  let ?r' = "snd (sbefifo_buf_wrotenb (r\<lparr>buf := (buf r)[wpos r := x]\<rparr>) 4)"
  have nf: "\<not> buf_full r"
    using assms(2) by (auto simp: buf_used_def)
  have ok: "buf_ok ?r'"
    using assms(1) nf
    by (auto simp: wrotenb_4 buf_ok_def buf_wf_def SBEFIFO_BUF_CNT_def Let_def)
  have "buf_used ?r' = buf_used r + 1"
    using assms nf unfolding buf_used_if [OF ok] buf_used_if [OF assms(1)]
    by (auto simp: wrotenb_4 Let_def buf_ok_def buf_wf_def SBEFIFO_BUF_CNT_def
        split: if_splits)
  with ok show ?thesis by simp
qed

lemma inw_acc:
  "\<exists>ret sts d1 raw. sbefifo_inw P f reg = (ret, sts, (d1, snd f @ [Fsi_read reg ret raw]))"
  by (simp add: sbefifo_inw_def split: prod.splits)

lemma readw_acc:
  "\<exists>ret word d1. sbefifo_readw P f = (ret, word, (d1, snd f @ [Fsi_read SBEFIFO_DWN ret word]))"
  by (simp add: sbefifo_readw_def split: prod.splits)

lemma outw_acc:
  "\<exists>ret d1. sbefifo_outw P f reg word = (ret, (d1, snd f @ [Fsi_write reg (cpu_to_be32 P word) ret]))"
  by (simp add: sbefifo_outw_def Let_def split: prod.splits)

lemma ack_eot_acc:
  "\<exists>ret d1 more. sbefifo_ack_eot P f = (ret, (d1, snd f @ more))"
proof -
  obtain ret word d1 where
    rd: "sbefifo_readw P f = (ret, word, (d1, snd f @ [Fsi_read SBEFIFO_DWN ret word]))"
    using readw_acc [of P f] by blast
  show ?thesis
  proof (cases "ret = 0")
    case False
    then show ?thesis
      using rd by (simp add: sbefifo_ack_eot_def)
  next
    case True
    obtain ret2 d2 where
      "sbefifo_outw P (d1, snd f @ [Fsi_read SBEFIFO_DWN ret word])
         (SBEFIFO_DWN OR SBEFIFO_EOT_ACK) SBEFIFO_EOT_MAGIC =
       (ret2, (d2, snd (d1, snd f @ [Fsi_read SBEFIFO_DWN ret word]) @
          [Fsi_write (SBEFIFO_DWN OR SBEFIFO_EOT_ACK) (cpu_to_be32 P SBEFIFO_EOT_MAGIC) ret2]))"
      using outw_acc [of P "(d1, snd f @ [Fsi_read SBEFIFO_DWN ret word])"
          "SBEFIFO_DWN OR SBEFIFO_EOT_ACK" SBEFIFO_EOT_MAGIC]
      by blast
    then show ?thesis
      using rd True by (simp add: sbefifo_ack_eot_def)
  qed
qed

lemma fill_words_total:
  assumes "buf_ok r" and "buf_used r + k \<le> 32"
  shows "\<exists>ret d1 more r1. fill_words P False k f r = Some (ret, (d1, snd f @ more), r1) \<and>
           buf_ok r1 \<and> (ret = 0 \<longrightarrow> buf_used r1 = buf_used r + k)"
  using assms
proof (induction k arbitrary: f r)
  case 0
  then show ?case by (cases f) simp
next
  case (Suc k)
  have w: "wpos r < length (buf r)"
    using Suc.prems(1) by (simp add: buf_ok_def buf_wf_def SBEFIFO_BUF_CNT_def)
  obtain ret word d1 where
    rd: "sbefifo_readw P f = (ret, word, (d1, snd f @ [Fsi_read SBEFIFO_DWN ret word]))"
    using readw_acc [of P f] by blast
  let ?f1 = "(d1, snd f @ [Fsi_read SBEFIFO_DWN ret word])"
  show ?case
  proof (cases "ret = 0")
    case False
    then show ?thesis
      using w rd Suc.prems(1) by simp
  next
    case True
    let ?r1 = "snd (sbefifo_buf_wrotenb (r\<lparr>buf := (buf r)[wpos r := word]\<rparr>) 4)"
    have lt: "buf_used r < 32"
      using Suc.prems(2) by simp
    have ok1: "buf_ok ?r1" and u1: "buf_used ?r1 = buf_used r + 1"
      using wrotenb_4_ok [OF Suc.prems(1) lt, of word] by simp_all
    have "buf_used ?r1 + k \<le> 32"
      using u1 Suc.prems(2) by simp
    from Suc.IH [OF ok1 this, of ?f1] obtain ret2 d2 more r2 where
      "fill_words P False k ?f1 ?r1 = Some (ret2, (d2, snd ?f1 @ more), r2)" "buf_ok r2"
      "ret2 = 0 \<longrightarrow> buf_used r2 = buf_used ?r1 + k"
      by blast
    then show ?thesis
      using w rd True u1 by (simp add: Let_def)
  qed
qed

lemma fill_loop_total:
  assumes "buf_ok r"
  shows "\<exists>ex d1 more r1 wdt1.
           fill_loop P jiffies False f r wdt = Some (ex, (d1, snd f @ more), r1, wdt1) \<and> buf_ok r1"
  using assms
proof (induction "32 - buf_used r" arbitrary: f r wdt rule: less_induct)
  case less
  let ?bufn = "sbefifo_buf_nbwriteable r"
  show ?case
  proof (cases "?bufn = 0")
    case True
    have "fill_loop P jiffies False f r wdt = Some (Loop_done, (fst f, snd f @ []), r, wdt)"
      using True by (subst fill_loop.simps) simp
    then show ?thesis
      using less.prems by blast
  next
    case bufn: False
    obtain ret sts d1 raw where
      inw: "sbefifo_inw P f (SBEFIFO_DWN OR SBEFIFO_STS) =
              (ret, sts, (d1, snd f @ [Fsi_read (SBEFIFO_DWN OR SBEFIFO_STS) ret raw]))"
      using inw_acc [of P f "SBEFIFO_DWN OR SBEFIFO_STS"] by blast
    let ?f1 = "(d1, snd f @ [Fsi_read (SBEFIFO_DWN OR SBEFIFO_STS) ret raw])"
    show ?thesis
    proof (cases "ret \<noteq> 0 \<or> sbefifo_dev_nwreadable sts = 0")
      case True
      then have "\<exists>ex wdt1. fill_loop P jiffies False f r wdt = Some (ex, ?f1, r, wdt1)"
        using bufn inw by (subst fill_loop.simps) (auto simp: Let_def)
      then show ?thesis
        using less.prems by blast
    next
      case False
      then have ret: "ret = 0" and devn: "sbefifo_dev_nwreadable sts \<noteq> 0"
        by simp_all
      let ?devn1 = "min (sbefifo_dev_nwreadable sts) (drop_bit 2 ?bufn)"
      let ?eot = "sts AND 0x000000ff \<noteq> 0"
      let ?devn2 = "if ?eot then ?devn1 - 1 else ?devn1"
      have b4: "4 \<le> unat ?bufn"
      proof -
        have "unat ?bufn \<noteq> 0"
          using bufn by (simp add: unat_eq_0)
        then show ?thesis
          using unat_nbwriteable [OF buf_ok_wf [OF less.prems]]
          by (auto split: if_splits)
      qed
      then have d1: "1 \<le> unat (drop_bit 2 ?bufn)"
        by (simp add: unat_drop_bit_2)
      have "unat (sbefifo_dev_nwreadable sts) \<noteq> 0"
        using devn by (simp add: unat_eq_0)
      then have devn1_pos: "1 \<le> unat ?devn1"
        using d1 by (simp add: min_def word_le_nat_alt)
      have "unat ?devn1 \<le> unat (drop_bit 2 ?bufn)"
        by (simp add: min_def word_le_nat_alt)
      then have devn1_le: "buf_used r + unat ?devn1 \<le> 32"
        using nbwriteable_free [OF less.prems] by (simp add: unat_drop_bit_2)
      have "unat (?devn1 - 1) = unat ?devn1 - 1"
        using devn1_pos by (simp add: unat_sub word_le_nat_alt)
      then have devn2_le: "buf_used r + unat ?devn2 \<le> 32"
        using devn1_le by (cases ?eot) simp_all
      from fill_words_total [OF less.prems devn2_le, of P ?f1] obtain ret2 d2 more2 r2 where
        fw: "fill_words P False (unat ?devn2) ?f1 r = Some (ret2, (d2, snd ?f1 @ more2), r2)"
        and ok2: "buf_ok r2"
        and u2: "ret2 = 0 \<longrightarrow> buf_used r2 = buf_used r + unat ?devn2"
        by blast
      let ?f2 = "(d2, snd ?f1 @ more2)"
      have f2: "?f2 = (d2, snd f @ (Fsi_read (SBEFIFO_DWN OR SBEFIFO_STS) ret raw # more2))"
        by simp
      obtain ret3 d3 more3 where ack: "sbefifo_ack_eot P ?f2 = (ret3, (d3, snd ?f2 @ more3))"
        using ack_eot_acc [of P ?f2] by blast
      have f3: "(d3, snd ?f2 @ more3) =
                (d3, snd f @ (Fsi_read (SBEFIFO_DWN OR SBEFIFO_STS) ret raw # more2 @ more3))"
        by simp
      show ?thesis
      proof (cases "ret2 \<noteq> 0 \<or> ?eot")
        case True
        have "\<exists>ex fa. fill_loop P jiffies False f r wdt = Some (ex, fa, r2, 0) \<and>
                (fa = ?f2 \<or> fa = (d3, snd ?f2 @ more3))"
          using True bufn inw ret devn fw ack
          by (subst fill_loop.simps) (auto simp: Let_def)
        then show ?thesis
          using ok2 f2 f3 by metis
      next
        case False
        then have r20: "ret2 = 0" and ne: "\<not> ?eot"
          by simp_all
        have "buf_used r2 = buf_used r + unat ?devn1"
          using u2 r20 ne by simp
        then have "32 - buf_used r2 < 32 - buf_used r"
          using devn1_pos devn1_le by simp
        from less.hyps [OF this ok2, of ?f2 0] obtain ex d4 more4 r4 wdt4 where
          rec: "fill_loop P jiffies False ?f2 r2 0 = Some (ex, (d4, snd ?f2 @ more4), r4, wdt4)"
          and ok4: "buf_ok r4"
          by blast
        have "fill_loop P jiffies False f r wdt = fill_loop P jiffies False ?f2 r2 0"
          using bufn inw ret devn fw r20 ne
          by (subst fill_loop.simps) (simp add: Let_def)
        with rec have "fill_loop P jiffies False f r wdt =
            Some (ex, (d4, snd f @ (Fsi_read (SBEFIFO_DWN OR SBEFIFO_STS) ret raw # more2 @ more4)),
                  r4, wdt4)"
          by simp
        then show ?thesis
          using ok4 by blast
      qed
    qed
  qed
qed

lemma drain_loop_empty:
  "sbefifo_buf_nbreadable w = 0 \<Longrightarrow> drain_loop P f w = Some (Loop_done, f, w)"
  by (subst drain_loop.simps) simp

lemma next_xfr_scan_total:
  assumes "distinct q" and "\<forall>y\<in>set q. m y \<noteq> None"
  shows "\<exists>m1 q1. next_xfr_scan m q = Some (m1, q1)"
  using assms
proof (induction q arbitrary: m)
  case Nil
  show ?case by simp
next
  case (Cons x q)
  then obtain xfr where x: "m x = Some xfr"
    by auto
  have "\<forall>y\<in>set q. (m(x := None)) y \<noteq> None"
    using Cons.prems by auto
  moreover have "distinct q"
    using Cons.prems(1) by simp
  ultimately have "\<exists>m1 q1. next_xfr_scan (m(x := None)) q = Some (m1, q1)"
    by (rule Cons.IH [rotated])
  then show ?case
    using x by (cases "xfr_cancel xfr") simp_all
qed

lemma tick_finish_total:
  assumes "xfr_mem s x \<noteq> None" and "distinct (xfrs s)" and "\<forall>y\<in>set (xfrs s). xfr_mem s y \<noteq> None"
  shows "\<exists>s1. tick_finish P jiffies x ex s = Some s1 \<and> client_mem s1 = client_mem s"
proof (cases ex)
  case Loop_break
  obtain xfr where x: "xfr_mem s x = Some xfr"
    using assms(1) by auto
  let ?m = "if xfr_cancel xfr then (xfr_mem s)(x := None)
            else (xfr_mem s)(x \<mapsto> xfr\<lparr>xfr_complete := True\<rparr>)"
  have tc: "tick_complete x s = Some (s\<lparr>xfrs := remove1 x (xfrs s), xfr_mem := ?m\<rparr>)"
    using x by (simp add: tick_complete_def)
  have d: "distinct (remove1 x (xfrs s))"
    using assms(2) by simp
  have "\<forall>y\<in>set (remove1 x (xfrs s)). ?m y \<noteq> None"
    using assms(2,3) by auto
  from next_xfr_scan_total [OF d this] obtain m1 q1 where
    "next_xfr_scan ?m (remove1 x (xfrs s)) = Some (m1, q1)"
    by blast
  then show ?thesis
    using Loop_break tc by (simp add: tick_finish_def sbefifo_next_xfr_def)
qed (simp_all add: tick_finish_def tick_fatal_def)

text \<open>
  A device seen through the number of free slots of its up FIFO: a status read succeeds,
  leaves that number as it is and reports it; a write to the FIFO succeeds and takes one
  slot.
\<close>

lemma drain_words_free:
  assumes "buf_ok w" and "k \<le> buf_used w"
    and wr: "\<forall>d x. \<exists>d1. fsi_device_write P d SBEFIFO_UP x = (0, d1) \<and> free d1 = free d - 1"
  shows "\<exists>d. drain_words P k f w =
           Some (0, (d, snd f @ map (\<lambda>x. Fsi_write SBEFIFO_UP x 0) (ring_take w k)),
                 ring_drop w k) \<and>
           free d = free (fst f) - k"
  using assms(1,2)
proof (induction k arbitrary: f w)
  case 0
  show ?case
    by (cases f) (simp add: ring_take_def ring_drop_def)
next
  case (Suc k)
  have r: "rpos w < 32" and len: "length (buf w) = 32"
    using Suc.prems(1) by (simp_all add: buf_ok_def buf_wf_def SBEFIFO_BUF_CNT_def)
  obtain d1 where wr1: "fsi_device_write P (fst f) SBEFIFO_UP (buf w ! rpos w) = (0, d1)"
    and fr1: "free d1 = free (fst f) - 1"
    using wr by blast
  let ?f1 = "(d1, snd f @ [Fsi_write SBEFIFO_UP (buf w ! rpos w) 0])"
  let ?w1 = "ring_drop w 1"
  have ok1: "buf_ok ?w1"
    using Suc.prems(1) by (rule ring_drop_ok)
  have "buf_used ?w1 + 1 = buf_used w"
    using Suc.prems by (intro ring_drop_used) simp_all
  then have k1: "k \<le> buf_used ?w1"
    using Suc.prems(2) by simp
  from Suc.IH [OF ok1 k1, of ?f1] obtain d where
    ih: "drain_words P k ?f1 ?w1 =
           Some (0, (d, snd ?f1 @ map (\<lambda>x. Fsi_write SBEFIFO_UP x 0) (ring_take ?w1 k)),
                 ring_drop ?w1 k)"
    and fr: "free d = free (fst ?f1) - k"
    by blast
  have "drain_words P (Suc k) f w = drain_words P k ?f1 ?w1"
    using r len wr1 readnb_4_drop [OF Suc.prems(1)]
    by (simp add: sbefifo_writew_def)
  moreover have "free d = free (fst f) - Suc k"
    using fr fr1 by simp
  ultimately show ?case
    using ih r by (simp add: ring_take_Suc ring_drop_add)
qed

lemma drain_loop_4:
  assumes ok: "buf_ok w" and n: "16 \<le> unat (sbefifo_buf_nbreadable w)"
    and rd: "\<forall>d. \<exists>raw. fsi_device_read P d (SBEFIFO_UP OR SBEFIFO_STS) = (0, raw, d) \<and>
               sbefifo_dev_nwwriteable (be32_to_cpu P raw) = of_nat (free d)"
    and wr: "\<forall>d x. \<exists>d1. fsi_device_write P d SBEFIFO_UP x = (0, d1) \<and> free d1 = free d - 1"
    and f4: "free (fst f) = 4"
  shows "\<exists>d raw. drain_loop P f w =
           drain_loop P
             (d, snd f @ Fsi_read (SBEFIFO_UP OR SBEFIFO_STS) 0 raw #
                   map (\<lambda>x. Fsi_write SBEFIFO_UP x 0) (ring_take w 4))
             (ring_drop w 4) \<and>
           free d = 0"
proof -
  let ?bufn = "sbefifo_buf_nbreadable w"
  have ne: "?bufn \<noteq> 0"
    using n by (auto simp: unat_eq_0)
  obtain raw where rd1: "fsi_device_read P (fst f) (SBEFIFO_UP OR SBEFIFO_STS) = (0, raw, fst f)"
    and fr: "sbefifo_dev_nwwriteable (be32_to_cpu P raw) = of_nat (free (fst f))"
    using rd by blast
  let ?f1 = "(fst f, snd f @ [Fsi_read (SBEFIFO_UP OR SBEFIFO_STS) 0 raw])"
  have inw: "sbefifo_inw P f (SBEFIFO_UP OR SBEFIFO_STS) = (0, be32_to_cpu P raw, ?f1)"
    using rd1 by (simp add: sbefifo_inw_def)
  have free: "sbefifo_dev_nwwriteable (be32_to_cpu P raw) = 4"
    using fr f4 by simp
  have "4 \<le> unat (drop_bit 2 ?bufn)"
    using n by (simp add: unat_drop_bit_2)
  then have "(4 :: size_t) \<le> drop_bit 2 ?bufn"
    by (simp add: word_le_nat_alt)
  then have k: "unat (min (4 :: size_t) (drop_bit 2 ?bufn)) = 4"
    by (simp add: min_def)
  have "4 \<le> unat ?bufn div 4"
    using n by simp
  then have used: "4 \<le> buf_used w"
    using nbreadable_used [OF ok] by simp
  from drain_words_free [OF ok used wr, of ?f1] obtain d2 where
    dw: "drain_words P 4 ?f1 w =
           Some (0, (d2, snd ?f1 @ map (\<lambda>x. Fsi_write SBEFIFO_UP x 0) (ring_take w 4)),
                 ring_drop w 4)"
    and fr2: "free d2 = free (fst ?f1) - 4"
    by blast
  have "drain_loop P f w =
          drain_loop P (d2, snd ?f1 @ map (\<lambda>x. Fsi_write SBEFIFO_UP x 0) (ring_take w 4))
            (ring_drop w 4)"
    using ne inw free k dw by (subst drain_loop.simps) (simp add: Let_def)
  moreover have "free d2 = 0"
    using fr2 f4 by simp
  ultimately show ?thesis
    by auto
qed

lemma drain_loop_no_slot:
  assumes ne: "sbefifo_buf_nbreadable w \<noteq> 0"
    and rd: "\<forall>d. \<exists>raw. fsi_device_read P d (SBEFIFO_UP OR SBEFIFO_STS) = (0, raw, d) \<and>
               sbefifo_dev_nwwriteable (be32_to_cpu P raw) = of_nat (free d)"
    and f0: "free (fst f) = 0"
  shows "\<exists>raw. drain_loop P f w =
           Some (Goto_out_unlock,
                 (fst f, snd f @ [Fsi_read (SBEFIFO_UP OR SBEFIFO_STS) 0 raw]), w)"
proof -
  obtain raw where rd1: "fsi_device_read P (fst f) (SBEFIFO_UP OR SBEFIFO_STS) = (0, raw, fst f)"
    and fr: "sbefifo_dev_nwwriteable (be32_to_cpu P raw) = of_nat (free (fst f))"
    using rd by blast
  have inw: "sbefifo_inw P f (SBEFIFO_UP OR SBEFIFO_STS) =
               (0, be32_to_cpu P raw, (fst f, snd f @ [Fsi_read (SBEFIFO_UP OR SBEFIFO_STS) 0 raw]))"
    using rd1 by (simp add: sbefifo_inw_def)
  have "sbefifo_dev_nwwriteable (be32_to_cpu P raw) = 0"
    using fr f0 by simp
  then have "drain_loop P f w =
          Some (Goto_out_unlock, (fst f, snd f @ [Fsi_read (SBEFIFO_UP OR SBEFIFO_STS) 0 raw]), w)"
    using ne inw by (subst drain_loop.simps) (simp add: Let_def)
  then show ?thesis
    by blast
qed

text \<open>
  The write ring holds 8 words and the up FIFO has 4 free slots: the drain loop polls the
  status, sends four words, polls again, finds no free slot and leaves for a later run.
\<close>

lemma drain_first_4:
  assumes ok: "buf_ok w" and nf: "\<not> buf_full w" and r8: "rpos w + 8 \<le> 32"
    and wp: "wpos w = (rpos w + 8) mod 32"
    and rd: "\<forall>d. \<exists>raw. fsi_device_read P d (SBEFIFO_UP OR SBEFIFO_STS) = (0, raw, d) \<and>
               sbefifo_dev_nwwriteable (be32_to_cpu P raw) = of_nat (free d)"
    and wr: "\<forall>d x. \<exists>d1. fsi_device_write P d SBEFIFO_UP x = (0, d1) \<and> free d1 = free d - 1"
    and f4: "free (fst f) = 4"
  shows "\<exists>d raw1 raw2. drain_loop P f w =
           Some (Goto_out_unlock,
                 (d, snd f @ Fsi_read (SBEFIFO_UP OR SBEFIFO_STS) 0 raw1 #
                       map (\<lambda>x. Fsi_write SBEFIFO_UP x 0) (ring_take w 4) @
                       [Fsi_read (SBEFIFO_UP OR SBEFIFO_STS) 0 raw2]),
                 ring_drop w 4)"
proof -
  have wp': "wpos w = (if rpos w + 8 < 32 then rpos w + 8 else 0)"
    using r8 wp by (simp add: mod_32_if)
  have n1: "16 \<le> unat (sbefifo_buf_nbreadable w)"
    using nf r8 wp' by (simp add: unat_nbreadable [OF buf_ok_wf [OF ok]])
  from drain_loop_4 [OF ok n1 rd wr f4] obtain d1 raw1 where
    s1: "drain_loop P f w =
           drain_loop P
             (d1, snd f @ Fsi_read (SBEFIFO_UP OR SBEFIFO_STS) 0 raw1 #
                   map (\<lambda>x. Fsi_write SBEFIFO_UP x 0) (ring_take w 4))
             (ring_drop w 4)"
    and f0: "free d1 = 0"
    by blast
  let ?f1 = "(d1, snd f @ Fsi_read (SBEFIFO_UP OR SBEFIFO_STS) 0 raw1 #
                   map (\<lambda>x. Fsi_write SBEFIFO_UP x 0) (ring_take w 4))"
  let ?w1 = "ring_drop w 4"
  have ok1: "buf_ok ?w1"
    using ok by (rule ring_drop_ok)
  have w1: "\<not> buf_full ?w1" "rpos ?w1 = rpos w + 4" "wpos ?w1 = wpos w"
    using r8 by (simp_all add: ring_drop_def)
  have "16 \<le> unat (sbefifo_buf_nbreadable ?w1)"
    using w1 r8 wp' by (simp add: unat_nbreadable [OF buf_ok_wf [OF ok1]])
  then have ne: "sbefifo_buf_nbreadable ?w1 \<noteq> 0"
    by (auto simp: unat_eq_0)
  have "free (fst ?f1) = 0"
    using f0 by simp
  from drain_loop_no_slot [OF ne rd this] obtain raw2 where
    "drain_loop P ?f1 ?w1 =
       Some (Goto_out_unlock,
             (fst ?f1, snd ?f1 @ [Fsi_read (SBEFIFO_UP OR SBEFIFO_STS) 0 raw2]), ?w1)"
    by blast
  with s1 show ?thesis
    by simp
qed

text \<open>
  The write ring holds 4 words and the up FIFO has 4 free slots: the drain loop polls the
  status, sends the four words and ends with the ring empty.
\<close>

lemma drain_last_4:
  assumes ok: "buf_ok w" and nf: "\<not> buf_full w" and r4: "rpos w + 4 \<le> 32"
    and wp: "wpos w = (rpos w + 4) mod 32"
    and rd: "\<forall>d. \<exists>raw. fsi_device_read P d (SBEFIFO_UP OR SBEFIFO_STS) = (0, raw, d) \<and>
               sbefifo_dev_nwwriteable (be32_to_cpu P raw) = of_nat (free d)"
    and wr: "\<forall>d x. \<exists>d1. fsi_device_write P d SBEFIFO_UP x = (0, d1) \<and> free d1 = free d - 1"
    and f4: "free (fst f) = 4"
  shows "\<exists>d raw. drain_loop P f w =
           Some (Loop_done,
                 (d, snd f @ Fsi_read (SBEFIFO_UP OR SBEFIFO_STS) 0 raw #
                       map (\<lambda>x. Fsi_write SBEFIFO_UP x 0) (ring_take w 4)),
                 ring_drop w 4) \<and>
           sbefifo_buf_nbreadable (ring_drop w 4) = 0"
proof -
  have wp': "wpos w = (if rpos w + 4 < 32 then rpos w + 4 else 0)"
    using r4 wp by (simp add: mod_32_if)
  have n1: "16 \<le> unat (sbefifo_buf_nbreadable w)"
    using nf r4 wp' by (simp add: unat_nbreadable [OF buf_ok_wf [OF ok]])
  from drain_loop_4 [OF ok n1 rd wr f4] obtain d1 raw1 where
    s1: "drain_loop P f w =
           drain_loop P
             (d1, snd f @ Fsi_read (SBEFIFO_UP OR SBEFIFO_STS) 0 raw1 #
                   map (\<lambda>x. Fsi_write SBEFIFO_UP x 0) (ring_take w 4))
             (ring_drop w 4)"
    by blast
  have "\<not> buf_full (ring_drop w 4)" "rpos (ring_drop w 4) = wpos (ring_drop w 4)"
    using wp by (simp_all add: ring_drop_def)
  then have e: "sbefifo_buf_nbreadable (ring_drop w 4) = 0"
    by (simp add: sbefifo_buf_nbreadable_def)
  let ?f1 = "(d1, snd f @ Fsi_read (SBEFIFO_UP OR SBEFIFO_STS) 0 raw1 #
                   map (\<lambda>x. Fsi_write SBEFIFO_UP x 0) (ring_take w 4))"
  have "drain_loop P f w = Some (Loop_done, ?f1, ring_drop w 4)"
    using s1 drain_loop_empty [OF e, of P ?f1] by simp
  with e show ?thesis
    by blast
qed

text \<open>
  The run of the timer function that finds the last four words in the write ring of a
  transfer whose writer has finished, and four free slots in the up FIFO.
\<close>

lemma tick_last_4:
  assumes q: "xfrs s = x # q" "distinct (x # q)" "\<forall>y\<in>set q. xfr_mem s y \<noteq> None"
    and xfr: "xfr_mem s x = Some xfr" "\<not> xfr_cancel xfr" "xfr_write_done xfr"
    and cl: "client_mem s (xfr_client xfr) = Some cl" "buf_ok (rbuf cl)" "buf_ok (wbuf cl)"
    and held: "\<not> buf_full (wbuf cl)" "rpos (wbuf cl) + 4 \<le> 32"
      "wpos (wbuf cl) = (rpos (wbuf cl) + 4) mod 32"
    and rd: "\<forall>d. \<exists>raw. fsi_device_read P d (SBEFIFO_UP OR SBEFIFO_STS) = (0, raw, d) \<and>
               sbefifo_dev_nwwriteable (be32_to_cpu P raw) = of_nat (free d)"
    and wr: "\<forall>d x. \<exists>d1. fsi_device_write P d SBEFIFO_UP x = (0, d1) \<and> free d1 = free d - 1"
    and f4: "free (fsi_dev s) = 4"
  shows "\<exists>acc s1 raw ret more cl1.
           sbefifo_poll_timer P jiffies s = Some (acc, s1) \<and>
           acc = Fsi_read (SBEFIFO_UP OR SBEFIFO_STS) 0 raw #
                 map (\<lambda>x. Fsi_write SBEFIFO_UP x 0) (ring_take (wbuf cl) 4) @
                 Fsi_write (SBEFIFO_UP OR SBEFIFO_EOT_RAISE) (cpu_to_be32 P SBEFIFO_EOT_MAGIC) ret #
                 more \<and>
           client_mem s1 (xfr_client xfr) = Some cl1 \<and>
           sbefifo_buf_nbreadable (wbuf cl1) = 0"
proof -
  let ?s = "s\<lparr>poll_timer := None\<rparr>"
  let ?wb = "ring_drop (wbuf cl) 4"
  let ?R = "Fsi_read (SBEFIFO_UP OR SBEFIFO_STS) 0"
  let ?W = "\<lambda>x. Fsi_write SBEFIFO_UP x 0"
  have "free (fst (fsi_dev ?s, [] :: fsi_access list)) = 4"
    using f4 by simp
  from drain_last_4 [OF cl(3) held rd wr this] obtain d raw1 where
    dl: "drain_loop P (fsi_dev ?s, []) (wbuf cl) =
           Some (Loop_done, (d, ?R raw1 # map ?W (ring_take (wbuf cl) 4)), ?wb)"
    and empty: "sbefifo_buf_nbreadable ?wb = 0"
    by auto
  let ?a1 = "?R raw1 # map ?W (ring_take (wbuf cl) 4)"
  from outw_acc [of P "(d, ?a1)" "SBEFIFO_UP OR SBEFIFO_EOT_RAISE" SBEFIFO_EOT_MAGIC]
  obtain ret d2 where
    ow: "sbefifo_outw P (d, ?a1) (SBEFIFO_UP OR SBEFIFO_EOT_RAISE) SBEFIFO_EOT_MAGIC =
           (ret, (d2, ?a1 @ [Fsi_write (SBEFIFO_UP OR SBEFIFO_EOT_RAISE)
                               (cpu_to_be32 P SBEFIFO_EOT_MAGIC) ret]))"
    by auto
  let ?a2 = "?a1 @ [Fsi_write (SBEFIFO_UP OR SBEFIFO_EOT_RAISE)
                      (cpu_to_be32 P SBEFIFO_EOT_MAGIC) ret]"
  let ?xfr2 = "xfr\<lparr>xfr_write_done := False, xfr_resp_pending := True\<rparr>"
  from fill_loop_total [OF cl(2), of P jiffies "(d2, ?a2)" "wait_data_timeout ?xfr2"]
  obtain ex d3 more rb1 wdt1 where
    fl: "fill_loop P jiffies False (d2, ?a2) (rbuf cl) (wait_data_timeout ?xfr2) =
           Some (ex, (d3, ?a2 @ more), rb1, wdt1)"
    by auto
  have tt: "\<exists>ex d4 more rb1 xfr3.
              tick_transfer P jiffies (fsi_dev ?s, []) (rbuf cl) (wbuf cl) xfr =
                Some (ex, (d4, ?a2 @ more), rb1, ?wb, xfr3) \<and> \<not> xfr_cancel xfr3 \<and>
              xfr_client xfr3 = xfr_client xfr"
  proof (cases "ret = 0")
    case False
    then have "tick_transfer P jiffies (fsi_dev ?s, []) (rbuf cl) (wbuf cl) xfr =
                Some (Goto_out ret, (d2, ?a2 @ []), rbuf cl, ?wb, xfr\<lparr>xfr_write_done := False\<rparr>)"
      using dl ow xfr(3) by (simp add: tick_transfer_def)
    moreover have "\<not> xfr_cancel (xfr\<lparr>xfr_write_done := False\<rparr>)"
      "xfr_client (xfr\<lparr>xfr_write_done := False\<rparr>) = xfr_client xfr"
      using xfr(2) by simp_all
    ultimately show ?thesis
      by blast
  next
    case True
    then have "tick_transfer P jiffies (fsi_dev ?s, []) (rbuf cl) (wbuf cl) xfr =
                Some (ex, (d3, ?a2 @ more), rb1, ?wb, ?xfr2\<lparr>wait_data_timeout := wdt1\<rparr>)"
      using dl ow xfr(2,3) fl by (simp add: tick_transfer_def tick_fill_def)
    moreover have "\<not> xfr_cancel (?xfr2\<lparr>wait_data_timeout := wdt1\<rparr>)"
      "xfr_client (?xfr2\<lparr>wait_data_timeout := wdt1\<rparr>) = xfr_client xfr"
      using xfr(2) by simp_all
    ultimately show ?thesis
      by blast
  qed
  then obtain ex2 d4 more2 rb2 xfr3 where
    tt2: "tick_transfer P jiffies (fsi_dev ?s, []) (rbuf cl) (wbuf cl) xfr =
            Some (ex2, (d4, ?a2 @ more2), rb2, ?wb, xfr3)"
    and nc: "\<not> xfr_cancel xfr3" and same: "xfr_client xfr3 = xfr_client xfr"
    by blast
  let ?st = "tick_store ?s x xfr3 rb2 ?wb d4"
  have st_cl: "client_mem ?st (xfr_client xfr) = Some (cl\<lparr>rbuf := rb2, wbuf := ?wb\<rparr>)"
    using nc cl(1) same by (simp add: tick_store_def)
  have st1: "xfr_mem ?st x \<noteq> None" and st2: "distinct (xfrs ?st)"
    and st3: "\<forall>y\<in>set (xfrs ?st). xfr_mem ?st y \<noteq> None"
    using q by (auto simp: tick_store_def)
  from tick_finish_total [OF st1 st2 st3, of P jiffies ex2] obtain s1 where
    fin: "tick_finish P jiffies x ex2 ?st = Some s1" and cm: "client_mem s1 = client_mem ?st"
    by blast
  have "sbefifo_poll_timer P jiffies s = Some (?a2 @ more2, s1)"
    using q(1) xfr(1,2) cl(1) tt2 fin
    by (simp add: sbefifo_poll_timer_def tick_bufs_def Let_def)
  then show ?thesis
    using st_cl cm empty by simp
qed

text \<open>
  Claim C7.  Transfer \<open>x\<close> is at the head of the queue, not cancelled, and its writer
  has finished; the write ring of its client holds exactly 8 words (they do not wrap
  around the end of the storage).  The device is seen through the number \<open>free\<close> of free
  slots in its up FIFO: a status read succeeds and reports it, a write to the FIFO
  succeeds and takes one slot, and there are 4 free slots when the timer function runs.
  Then the first run of the timer function polls the status, sends the first four words,
  polls the status again, finds the FIFO full and re-arms the timer for
  \<open>SBEFIFO_RESCHEDULE\<close> later: it makes no other device access, so end-of-transfer is
  not raised.  When the device has made room for four words again, the second run polls
  the status, sends the other four words and then writes the magic value to the
  EOT-raise register; the write ring is empty afterwards.  So draining takes exactly two
  poll ticks before end-of-transfer is raised.
\<close>

theorem drain_8_words_two_ticks:
  assumes q: "xfrs s = x # q" "distinct (x # q)" "\<forall>y\<in>set q. xfr_mem s y \<noteq> None"
    and xfr: "xfr_mem s x = Some xfr" "\<not> xfr_cancel xfr" "xfr_write_done xfr"
    and cl: "client_mem s (xfr_client xfr) = Some cl" "buf_ok (rbuf cl)" "buf_ok (wbuf cl)"
    and held: "\<not> buf_full (wbuf cl)" "rpos (wbuf cl) + 8 \<le> 32"
      "wpos (wbuf cl) = (rpos (wbuf cl) + 8) mod 32"
    and rd: "\<forall>d. \<exists>raw. fsi_device_read P d (SBEFIFO_UP OR SBEFIFO_STS) = (0, raw, d) \<and>
               sbefifo_dev_nwwriteable (be32_to_cpu P raw) = of_nat (free d)"
    and wr: "\<forall>d x. \<exists>d1. fsi_device_write P d SBEFIFO_UP x = (0, d1) \<and> free d1 = free d - 1"
    and f4: "free (fsi_dev s) = 4"
  shows "\<exists>acc1 s1 raw1 raw2.
           sbefifo_poll_timer P jiffies s = Some (acc1, s1) \<and>
           acc1 = Fsi_read (SBEFIFO_UP OR SBEFIFO_STS) 0 raw1 #
                  map (\<lambda>x. Fsi_write SBEFIFO_UP x 0) (ring_take (wbuf cl) 4) @
                  [Fsi_read (SBEFIFO_UP OR SBEFIFO_STS) 0 raw2] \<and>
           poll_timer s1 = Some (jiffies + SBEFIFO_RESCHEDULE P) \<and>
           (\<forall>d jiffies2. free d = 4 \<longrightarrow>
              (\<exists>acc2 s2 raw3 ret more cl2.
                 sbefifo_poll_timer P jiffies2 (s1\<lparr>fsi_dev := d\<rparr>) = Some (acc2, s2) \<and>
                 acc2 = Fsi_read (SBEFIFO_UP OR SBEFIFO_STS) 0 raw3 #
                        map (\<lambda>x. Fsi_write SBEFIFO_UP x 0)
                          (ring_take (ring_drop (wbuf cl) 4) 4) @
                        Fsi_write (SBEFIFO_UP OR SBEFIFO_EOT_RAISE)
                          (cpu_to_be32 P SBEFIFO_EOT_MAGIC) ret #
                        more \<and>
                 client_mem s2 (xfr_client xfr) = Some cl2 \<and>
                 sbefifo_buf_nbreadable (wbuf cl2) = 0))"
proof -
  let ?s = "s\<lparr>poll_timer := None\<rparr>"
  let ?wb = "ring_drop (wbuf cl) 4"
  let ?R = "Fsi_read (SBEFIFO_UP OR SBEFIFO_STS) 0"
  let ?W = "\<lambda>x. Fsi_write SBEFIFO_UP x 0"
  have "free (fst (fsi_dev ?s, [] :: fsi_access list)) = 4"
    using f4 by simp
  from drain_first_4 [OF cl(3) held rd wr this] obtain d1 raw1 raw2 where
    dl: "drain_loop P (fsi_dev ?s, []) (wbuf cl) =
           Some (Goto_out_unlock,
                 (d1, ?R raw1 # map ?W (ring_take (wbuf cl) 4) @ [?R raw2]), ?wb)"
    by auto
  let ?acc1 = "?R raw1 # map ?W (ring_take (wbuf cl) 4) @ [?R raw2]"
  have tt: "tick_transfer P jiffies (fsi_dev ?s, []) (rbuf cl) (wbuf cl) xfr =
              Some (Goto_out_unlock, (d1, ?acc1), rbuf cl, ?wb, xfr)"
    using dl by (simp add: tick_transfer_def)
  let ?st = "tick_store ?s x xfr (rbuf cl) ?wb d1"
  let ?s1 = "?st\<lparr>poll_timer := Some (jiffies + SBEFIFO_RESCHEDULE P)\<rparr>"
  have fin: "tick_finish P jiffies x Goto_out_unlock ?st = Some ?s1"
    by (simp add: tick_finish_def)
  have t1: "sbefifo_poll_timer P jiffies s = Some (?acc1, ?s1)"
    using q(1) xfr(1,2) cl(1) tt fin
    by (simp add: sbefifo_poll_timer_def tick_bufs_def Let_def)
  have second: "\<exists>acc2 s2 raw3 ret more cl2.
                 sbefifo_poll_timer P jiffies2 (?s1\<lparr>fsi_dev := d\<rparr>) = Some (acc2, s2) \<and>
                 acc2 = ?R raw3 # map ?W (ring_take ?wb 4) @
                        Fsi_write (SBEFIFO_UP OR SBEFIFO_EOT_RAISE)
                          (cpu_to_be32 P SBEFIFO_EOT_MAGIC) ret # more \<and>
                 client_mem s2 (xfr_client xfr) = Some cl2 \<and>
                 sbefifo_buf_nbreadable (wbuf cl2) = 0"
    if d: "free d = 4" for d jiffies2
  proof -
    let ?s2 = "?s1\<lparr>fsi_dev := d\<rparr>"
    let ?cl = "cl\<lparr>rbuf := rbuf cl, wbuf := ?wb\<rparr>"
    have q2: "xfrs ?s2 = x # q" "distinct (x # q)" "\<forall>y\<in>set q. xfr_mem ?s2 y \<noteq> None"
      using q by (auto simp: tick_store_def)
    have x2: "xfr_mem ?s2 x = Some xfr"
      by (simp add: tick_store_def)
    have cl2: "client_mem ?s2 (xfr_client xfr) = Some ?cl"
      using xfr(2) cl(1) by (simp add: tick_store_def)
    have ok2: "buf_ok (rbuf ?cl)" "buf_ok (wbuf ?cl)"
      using cl(2) ring_drop_ok [OF cl(3)] by simp_all
    have held2: "\<not> buf_full (wbuf ?cl)" "rpos (wbuf ?cl) + 4 \<le> 32"
      "wpos (wbuf ?cl) = (rpos (wbuf ?cl) + 4) mod 32"
      using held by (simp_all add: ring_drop_def mod_32_if)
    have f2: "free (fsi_dev ?s2) = 4"
      using d by simp
    from tick_last_4 [OF q2 x2 xfr(2,3) cl2 ok2 held2 rd wr f2, of jiffies2] show ?thesis
      by simp
  qed
  have "poll_timer ?s1 = Some (jiffies + SBEFIFO_RESCHEDULE P)"
    by simp
  with t1 second show ?thesis
    by blast
qed

lemma fifo_dev_status:
  "\<forall>d. \<exists>raw. fsi_device_read fifo_dev d (SBEFIFO_UP OR SBEFIFO_STS) = (0, raw, d) \<and>
         sbefifo_dev_nwwriteable (be32_to_cpu fifo_dev raw) = of_nat (fifo_free (min 8 d))"
proof
  fix d :: nat
  have "min 8 d \<in> {0, 1, 2, 3, 4, 5, 6, 7, 8}"
    by (auto simp: min_def)
  then have "sbefifo_dev_nwwriteable (push_bit 16 (of_nat (min 8 d))) =
               of_nat (fifo_free (min 8 d))"
    by (auto simp: sbefifo_dev_nwwriteable_def sbefifo_dev_nwreadable_def fifo_free_def)
  then show "\<exists>raw. fsi_device_read fifo_dev d (SBEFIFO_UP OR SBEFIFO_STS) = (0, raw, d) \<and>
         sbefifo_dev_nwwriteable (be32_to_cpu fifo_dev raw) = of_nat (fifo_free (min 8 d))"
    by (simp add: fifo_dev_def)
qed

lemma fifo_dev_write:
  "\<forall>d x. \<exists>d1. fsi_device_write fifo_dev d SBEFIFO_UP x = (0, d1) \<and>
            fifo_free (min 8 d1) = fifo_free (min 8 d) - 1"
  by (auto simp: fifo_dev_def fifo_free_def min_def)

theorem drain_8_words_two_ticks_witness:
  "\<exists>acc1 s1 raw1 raw2.
     sbefifo_poll_timer fifo_dev 0 fifo8_3 = Some (acc1, s1) \<and>
     acc1 = Fsi_read (SBEFIFO_UP OR SBEFIFO_STS) 0 raw1 #
            map (\<lambda>x. Fsi_write SBEFIFO_UP x 0) [1, 2, 3, 4] @
            [Fsi_read (SBEFIFO_UP OR SBEFIFO_STS) 0 raw2] \<and>
     poll_timer s1 = Some 500 \<and>
     (\<exists>acc2 s2 raw3 ret more cl2.
        sbefifo_poll_timer fifo_dev 500 (s1\<lparr>fsi_dev := 4\<rparr>) = Some (acc2, s2) \<and>
        acc2 = Fsi_read (SBEFIFO_UP OR SBEFIFO_STS) 0 raw3 #
               map (\<lambda>x. Fsi_write SBEFIFO_UP x 0) [5, 6, 7, 8] @
               Fsi_write (SBEFIFO_UP OR SBEFIFO_EOT_RAISE) 0xffffffff ret # more \<and>
        client_mem s2 0 = Some cl2 \<and> sbefifo_buf_nbreadable (wbuf cl2) = 0)"
proof -
  have q: "xfrs fifo8_3 = 0 # []" "distinct (0 # ([] :: nat list))"
    "\<forall>y\<in>set ([] :: nat list). xfr_mem fifo8_3 y \<noteq> None"
    by (code_simp, simp_all)
  have "xfr_mem fifo8_3 0 \<noteq> None"
    by code_simp
  then have x: "xfr_mem fifo8_3 0 = Some (the (xfr_mem fifo8_3 0))"
    by auto
  have f: "\<not> xfr_cancel (the (xfr_mem fifo8_3 0))" "xfr_write_done (the (xfr_mem fifo8_3 0))"
    by code_simp+
  have c0: "xfr_client (the (xfr_mem fifo8_3 0)) = 0"
    by code_simp
  have "client_mem fifo8_3 0 \<noteq> None"
    by code_simp
  then have cl: "client_mem fifo8_3 (xfr_client (the (xfr_mem fifo8_3 0))) =
                   Some (the (client_mem fifo8_3 0))"
    using c0 by auto
  have ok: "buf_ok (rbuf (the (client_mem fifo8_3 0)))" "buf_ok (wbuf (the (client_mem fifo8_3 0)))"
    by code_simp+
  have held: "\<not> buf_full (wbuf (the (client_mem fifo8_3 0)))"
    "rpos (wbuf (the (client_mem fifo8_3 0))) + 8 \<le> 32"
    "wpos (wbuf (the (client_mem fifo8_3 0))) =
       (rpos (wbuf (the (client_mem fifo8_3 0))) + 8) mod 32"
    by code_simp+
  have f4: "fifo_free (min 8 (fsi_dev fifo8_3)) = 4"
    by code_simp
  have t1: "ring_take (wbuf (the (client_mem fifo8_3 0))) 4 = [1, 2, 3, 4]"
    by code_simp
  have t2: "ring_take (ring_drop (wbuf (the (client_mem fifo8_3 0))) 4) 4 = [5, 6, 7, 8]"
    by code_simp
  have r: "SBEFIFO_RESCHEDULE fifo_dev = 500"
    by (simp add: SBEFIFO_RESCHEDULE_def fifo_dev_def)
  have m: "cpu_to_be32 fifo_dev SBEFIFO_EOT_MAGIC = 0xffffffff"
    by (simp add: fifo_dev_def SBEFIFO_EOT_MAGIC_def)
  have d4: "fifo_free (min 8 4) = 4"
    by (simp add: fifo_free_def)
  from drain_8_words_two_ticks
         [OF q x f cl ok held fifo_dev_status fifo_dev_write f4, of 0]
  obtain acc1 s1 raw1 raw2 where
    a: "sbefifo_poll_timer fifo_dev 0 fifo8_3 = Some (acc1, s1)"
       "acc1 = Fsi_read (SBEFIFO_UP OR SBEFIFO_STS) 0 raw1 #
               map (\<lambda>x. Fsi_write SBEFIFO_UP x 0) [1, 2, 3, 4] @
               [Fsi_read (SBEFIFO_UP OR SBEFIFO_STS) 0 raw2]"
       "poll_timer s1 = Some 500"
    and b: "\<forall>d jiffies2. fifo_free (min 8 d) = 4 \<longrightarrow>
              (\<exists>acc2 s2 raw3 ret more cl2.
                 sbefifo_poll_timer fifo_dev jiffies2 (s1\<lparr>fsi_dev := d\<rparr>) = Some (acc2, s2) \<and>
                 acc2 = Fsi_read (SBEFIFO_UP OR SBEFIFO_STS) 0 raw3 #
                        map (\<lambda>x. Fsi_write SBEFIFO_UP x 0) [5, 6, 7, 8] @
                        Fsi_write (SBEFIFO_UP OR SBEFIFO_EOT_RAISE) 0xffffffff ret # more \<and>
                 client_mem s2 0 = Some cl2 \<and> sbefifo_buf_nbreadable (wbuf cl2) = 0)"
    unfolding t1 t2 c0 r m by auto
  from b d4 have
    "\<exists>acc2 s2 raw3 ret more cl2.
        sbefifo_poll_timer fifo_dev 500 (s1\<lparr>fsi_dev := 4\<rparr>) = Some (acc2, s2) \<and>
        acc2 = Fsi_read (SBEFIFO_UP OR SBEFIFO_STS) 0 raw3 #
               map (\<lambda>x. Fsi_write SBEFIFO_UP x 0) [5, 6, 7, 8] @
               Fsi_write (SBEFIFO_UP OR SBEFIFO_EOT_RAISE) 0xffffffff ret # more \<and>
        client_mem s2 0 = Some cl2 \<and> sbefifo_buf_nbreadable (wbuf cl2) = 0"
    by blast
  with a show ?thesis
    by blast
qed

text \<open>
  C4, as stated, fails. Transfer 0 of client 0 is at the head of the queue and transfer 1
  of client 1 waits behind it. The tick at time 0 sends client 0's word, raises
  end-of-transfer, finds no data and arms the deadline (5000). The tick at time 6000
  finds no data and the deadline passed: it latches \<open>-ETIME\<close> as the error code of the
  device, empties the queue and frees transfer 1, which was never serviced; a blocking
  read of client 1 then returns \<open>-ETIME\<close>.
\<close>

theorem timeout_is_global_counterexample:
  "xfrs two_5 = [0, 1] \<and>
   map_option xfr_client (xfr_mem two_5 0) = Some 0 \<and>
   map_option xfr_client (xfr_mem two_5 1) = Some 1 \<and>
   map_option fst (sbefifo_poll_timer dev4 0 two_5) =
     Some [Fsi_read 4 0 0x40000, Fsi_write 0 7 0, Fsi_write 8 0xffffffff 0, Fsi_read 0x44 0 0] \<and>
   map_option wait_data_timeout (xfr_mem two_6 0) = Some 5000 \<and>
   map_option fst (sbefifo_poll_timer dev4 6000 two_6) = Some [Fsi_read 0x44 0 0] \<and>
   rc two_7 = - ETIME \<and> xfrs two_7 = [] \<and> xfr_mem two_7 1 = None \<and>
   map_option fst
     (sbefifo_read_common_body 0 (\<lambda>i. 0) \<lparr>r_client = 1, r_user_fault = False, r_len = 4\<rparr>
        (snd (the (sbefifo_read_common_enter 1 False 4 two_7)))) = Some (- ETIME, [])"
  by code_simp

lemma fold_kfree:
  "fold (\<lambda>x m. m(x := None)) l m y = (if y \<in> set l then None else m y)"
  by (induction l arbitrary: m) auto

text \<open>
  C4, amended. A data-wait timeout takes the same fatal path as a failed register
  access. When the head transfer is response-pending with nothing left to send, its read
  buffer has room, its deadline is set and has passed, and the down status register
  (read without error) reports no entry, then the run of the timer function performs
  that one status read and returns with \<open>-ETIME\<close> latched as the error code of the
  device, the queue empty and every transfer that was queued, of whichever client, freed;
  the wait condition of a read is then true for every live client, with \<open>-ETIME\<close> as the
  value the read returns.
\<close>

theorem data_timeout_is_fatal:
  assumes q: "xfrs s = x # q"
    and xfr: "xfr_mem s x = Some xfr" "xfr_resp_pending xfr" "\<not> xfr_write_done xfr"
    and bufs: "tick_bufs s xfr = Some (rb, wb)" "sbefifo_buf_nbreadable wb = 0"
      "sbefifo_buf_nbwriteable rb \<noteq> 0"
    and late: "wait_data_timeout xfr \<noteq> 0" "time_after jiffies (wait_data_timeout xfr)"
    and sts: "fsi_device_read P (fsi_dev s) (SBEFIFO_DWN OR SBEFIFO_STS) = (0, raw, d)"
      "sbefifo_dev_nwreadable (be32_to_cpu P raw) = 0"
  shows "\<exists>s1. sbefifo_poll_timer P jiffies s =
                 Some ([Fsi_read (SBEFIFO_DWN OR SBEFIFO_STS) 0 raw], s1) \<and>
              rc s1 = - ETIME \<and> xfrs s1 = [] \<and>
              list_all (\<lambda>y. xfr_mem s1 y = None) (x # q) \<and>
              client_mem s1 = client_mem (tick_store s x xfr rb wb d) \<and>
              (\<forall>c. client_mem s1 c \<noteq> None \<longrightarrow>
                 (\<exists>n. sbefifo_read_ready s1 c = Some (True, n, - ETIME)))"
proof -
  let ?s = "s\<lparr>poll_timer := None\<rparr>"
  let ?acc = "[Fsi_read (SBEFIFO_DWN OR SBEFIFO_STS) 0 raw]"
  have inw: "sbefifo_inw P (fsi_dev s, []) (SBEFIFO_DWN OR SBEFIFO_STS) =
               (0, be32_to_cpu P raw, (d, ?acc))"
    using sts(1) by (simp add: sbefifo_inw_def)
  have fl: "fill_loop P jiffies (xfr_cancel xfr) (fsi_dev s, []) rb (wait_data_timeout xfr) =
              Some (Goto_out (- ETIME), (d, ?acc), rb, wait_data_timeout xfr)"
    using bufs(3) inw sts(2) late by (subst fill_loop.simps) (simp add: Let_def)
  have tt: "tick_transfer P jiffies (fsi_dev ?s, []) rb wb xfr =
              Some (Goto_out (- ETIME), (d, ?acc), rb, wb, xfr)"
    using drain_loop_empty [OF bufs(2), of P "(fsi_dev s, [])"] xfr(2,3) fl
    by (simp add: tick_transfer_def tick_fill_def)
  let ?st = "tick_store ?s x xfr rb wb d"
  have fin: "tick_finish P jiffies x (Goto_out (- ETIME)) ?st = Some (tick_fatal (- ETIME) ?st)"
    by (simp add: tick_finish_def ETIME_def)
  have "tick_bufs ?s xfr = tick_bufs s xfr"
    by (simp add: tick_bufs_def)
  then have tb: "tick_bufs ?s xfr = Some (rb, wb)"
    using bufs(1) by simp
  have run: "sbefifo_poll_timer P jiffies s = Some (?acc, tick_fatal (- ETIME) ?st)"
    using q xfr(1,2) tb tt fin by (simp add: sbefifo_poll_timer_def Let_def)
  have "list_all (\<lambda>y. xfr_mem (tick_fatal (- ETIME) ?st) y = None) (x # q)"
    using q by (simp add: tick_fatal_def tick_store_def fold_kfree list_all_iff)
  moreover have "client_mem (tick_fatal (- ETIME) ?st) = client_mem (tick_store s x xfr rb wb d)"
    by (simp add: tick_fatal_def tick_store_def split: option.splits)
  moreover have "\<forall>c. client_mem (tick_fatal (- ETIME) ?st) c \<noteq> None \<longrightarrow>
      (\<exists>n. sbefifo_read_ready (tick_fatal (- ETIME) ?st) c = Some (True, n, - ETIME))"
    by (auto simp: sbefifo_read_ready_def tick_fatal_def ETIME_def Let_def)
  ultimately show ?thesis
    using run by (simp add: tick_fatal_def)
qed

theorem data_timeout_is_fatal_witness:
  "\<exists>s1. sbefifo_poll_timer dev4 6000 two_6 = Some ([Fsi_read (SBEFIFO_DWN OR SBEFIFO_STS) 0 0], s1) \<and>
         rc s1 = - ETIME \<and> xfrs s1 = [] \<and> list_all (\<lambda>y. xfr_mem s1 y = None) [0, 1]"
proof -
  have q: "xfrs two_6 = [0, 1]"
    by code_simp
  have "xfr_mem two_6 0 \<noteq> None"
    by code_simp
  then have x: "xfr_mem two_6 0 = Some (the (xfr_mem two_6 0))"
    by auto
  have f: "xfr_resp_pending (the (xfr_mem two_6 0))" "\<not> xfr_write_done (the (xfr_mem two_6 0))"
    by code_simp+
  have "tick_bufs two_6 (the (xfr_mem two_6 0)) \<noteq> None"
    by code_simp
  then have b: "tick_bufs two_6 (the (xfr_mem two_6 0)) =
      Some (fst (the (tick_bufs two_6 (the (xfr_mem two_6 0)))),
            snd (the (tick_bufs two_6 (the (xfr_mem two_6 0)))))"
    by auto
  have e: "sbefifo_buf_nbreadable (snd (the (tick_bufs two_6 (the (xfr_mem two_6 0))))) = 0"
    "sbefifo_buf_nbwriteable (fst (the (tick_bufs two_6 (the (xfr_mem two_6 0))))) \<noteq> 0"
    by code_simp+
  have late: "wait_data_timeout (the (xfr_mem two_6 0)) \<noteq> 0"
    "time_after 6000 (wait_data_timeout (the (xfr_mem two_6 0)))"
    by code_simp+
  have sts: "fsi_device_read dev4 (fsi_dev two_6) (SBEFIFO_DWN OR SBEFIFO_STS) = (0, 0, ())"
    "sbefifo_dev_nwreadable (be32_to_cpu dev4 0) = 0"
    by code_simp+
  show ?thesis
    using data_timeout_is_fatal [OF q x f b e late sts] by auto
qed

section \<open>The record of events\<close>

text \<open>
  Leaving out the record, a function with a record is the function without it.
\<close>

lemma snd_Pair_option [simp]: "map_option snd (map_option (Pair evs) z) = z"
  by (cases z) simp_all

lemma snd_more_option [simp]:
  "map_option snd (map_option (\<lambda>(evs, r). (f evs, r)) z) = map_option snd z"
  by (cases z) auto

lemma next_xfr_scan_ev_erase: "map_option snd (next_xfr_scan_ev m q) = next_xfr_scan m q"
proof (induction q arbitrary: m)
  case Nil
  show ?case by simp
next
  case (Cons x q)
  show ?case
  proof (cases "m x")
    case None
    then show ?thesis by simp
  next
    case (Some xfr)
    have ih: "map_option snd (next_xfr_scan_ev (m(x := None)) q) = next_xfr_scan (m(x := None)) q"
      by (rule Cons.IH)
    show ?thesis
      using Some by (simp add: ih)
  qed
qed

lemma next_xfr_scan_ev_events:
  assumes "next_xfr_scan_ev m q = Some (evs, m1, q1)"
  shows "\<exists>k. k \<le> length q \<and> evs = map Ev_discard (take k q) \<and> q1 = drop k q"
  using assms
proof (induction q arbitrary: m evs)
  case Nil
  then show ?case by simp
next
  case (Cons x q)
  from Cons.prems obtain xfr where x: "m x = Some xfr"
    by (auto split: option.splits)
  show ?case
  proof (cases "xfr_cancel xfr")
    case False
    with Cons.prems x have "evs = []" "q1 = x # q"
      by simp_all
    then show ?thesis
      by (intro exI [of _ 0]) simp
  next
    case True
    with Cons.prems x obtain evs' where
      r: "next_xfr_scan_ev (m(x := None)) q = Some (evs', m1, q1)" and e: "evs = Ev_discard x # evs'"
      by auto
    from Cons.IH [OF r] obtain k where
      "k \<le> length q" "evs' = map Ev_discard (take k q)" "q1 = drop k q"
      by blast
    with e show ?thesis
      by (intro exI [of _ "Suc k"]) simp
  qed
qed

lemma next_xfr_ev_erase:
  "map_option snd (sbefifo_next_xfr_ev s) = sbefifo_next_xfr s"
proof -
  have "next_xfr_scan (xfr_mem s) (xfrs s) = map_option snd (next_xfr_scan_ev (xfr_mem s) (xfrs s))"
    by (simp add: next_xfr_scan_ev_erase)
  then show ?thesis
    by (cases "next_xfr_scan_ev (xfr_mem s) (xfrs s)")
      (auto simp: sbefifo_next_xfr_ev_def sbefifo_next_xfr_def)
qed

lemma next_xfr_ev_events:
  assumes "sbefifo_next_xfr_ev s = Some (evs, nx, s1)"
  shows "sbefifo_next_xfr s = Some (nx, s1) \<and>
         (\<exists>k. k \<le> length (xfrs s) \<and> evs = map Ev_discard (take k (xfrs s)) \<and>
              xfrs s1 = drop k (xfrs s))"
proof -
  from assms obtain m q where
    sc: "next_xfr_scan_ev (xfr_mem s) (xfrs s) = Some (evs, m, q)"
    and s1: "s1 = s\<lparr>xfrs := q, xfr_mem := m\<rparr>"
    by (auto simp: sbefifo_next_xfr_ev_def split: option.splits)
  from next_xfr_scan_ev_events [OF sc] s1 have
    "\<exists>k. k \<le> length (xfrs s) \<and> evs = map Ev_discard (take k (xfrs s)) \<and>
         xfrs s1 = drop k (xfrs s)"
    by simp
  moreover have "sbefifo_next_xfr s = Some (nx, s1)"
    using next_xfr_ev_erase [of s] assms by simp
  ultimately show ?thesis
    by simp
qed

lemma accesses_append [simp]: "accesses (a @ b) = accesses a @ accesses b"
  by (induction a rule: accesses.induct) simp_all

lemma accesses_access [simp]: "accesses (map (Ev_access x) acc) = acc"
  by (induction acc) simp_all

lemma accesses_discard [simp]: "accesses (map Ev_discard l) = []"
  by (induction l) simp_all

lemma accesses_flushed [simp]: "accesses (map Ev_flushed l) = []"
  by (induction l) simp_all

lemma accesses_enq [simp]: "accesses (map Ev_enq l) = []"
  by (induction l) simp_all

lemma tick_finish_ev_erase:
  "map_option snd (tick_finish_ev P jiffies x ex s) = tick_finish P jiffies x ex s"
proof (cases ex)
  case Loop_break
  show ?thesis
  proof (cases "tick_complete x s")
    case None
    with Loop_break show ?thesis
      by (simp add: tick_finish_ev_def tick_finish_def)
  next
    case (Some s1)
    show ?thesis
      using Loop_break Some
      by (cases "sbefifo_next_xfr_ev s1")
        (auto simp: tick_finish_ev_def tick_finish_def next_xfr_ev_erase [symmetric])
  qed
qed (simp_all add: tick_finish_ev_def tick_finish_def)

lemma tick_finish_ev_events:
  assumes "tick_finish_ev P jiffies x ex s = Some (evs, s1)"
  shows "tick_finish P jiffies x ex s = Some s1 \<and> accesses evs = []"
proof -
  have "tick_finish P jiffies x ex s = Some s1"
    using tick_finish_ev_erase [of P jiffies x ex s] assms by simp
  moreover have "accesses evs = []"
    using assms
    by (cases ex)
      (auto simp: tick_finish_ev_def split: option.splits if_splits dest!: next_xfr_ev_events)
  ultimately show ?thesis
    by simp
qed

lemma poll_timer_ev_erase:
  "map_option (\<lambda>(evs, s1). (accesses evs, s1)) (sbefifo_poll_timer_ev P jiffies s) =
   sbefifo_poll_timer P jiffies s"
proof (cases "xfrs s")
  case Nil
  then show ?thesis
    by (simp add: sbefifo_poll_timer_ev_def sbefifo_poll_timer_def)
next
  case (Cons x q)
  let ?s = "s\<lparr>poll_timer := None\<rparr>"
  show ?thesis
  proof (cases "tick_serve P jiffies ?s x")
    case None
    then show ?thesis
      using Cons
      by (auto simp: sbefifo_poll_timer_ev_def sbefifo_poll_timer_def tick_serve_def Let_def
          split: option.splits)
  next
    case (Some r)
    then obtain evs ex sa where r: "r = (evs, ex, sa)"
      by (cases r) auto
    from Some r obtain xfr rb wb f rb1 wb1 xfr2 where
      x: "xfr_mem ?s x = Some xfr" and b: "tick_bufs ?s xfr = Some (rb, wb)"
      and t: "tick_transfer P jiffies (fsi_dev ?s, []) rb wb
                (if xfr_cancel xfr \<and> \<not> xfr_resp_pending xfr
                 then xfr\<lparr>xfr_write_done := True\<rparr> else xfr) = Some (ex, f, rb1, wb1, xfr2)"
      and evs: "evs = map (Ev_access x) (snd f)"
      and sa: "sa = tick_store ?s x xfr2 rb1 wb1 (fst f)"
      by (auto simp: tick_serve_def Let_def split: option.splits)
    have old: "sbefifo_poll_timer P jiffies s =
                 map_option (Pair (snd f)) (tick_finish P jiffies x ex sa)"
      using Cons x b t sa by (simp add: sbefifo_poll_timer_def Let_def)
    show ?thesis
    proof (cases "tick_finish_ev P jiffies x ex sa")
      case None
      with tick_finish_ev_erase [of P jiffies x ex sa] have "tick_finish P jiffies x ex sa = None"
        by simp
      with None old Some r Cons show ?thesis
        by (simp add: sbefifo_poll_timer_ev_def)
    next
      case fin: (Some r1)
      then obtain evs1 s1 where r1: "r1 = (evs1, s1)"
        by (cases r1) auto
      from tick_finish_ev_events [of P jiffies x ex sa evs1 s1] fin r1 have
        "tick_finish P jiffies x ex sa = Some s1" "accesses evs1 = []"
        by simp_all
      with old Some r Cons fin r1 evs show ?thesis
        by (simp add: sbefifo_poll_timer_ev_def)
    qed
  qed
qed

lemma write_enter_ev_erase:
  "map_option snd (sbefifo_write_common_enter_ev jiffies kz c user data len s) =
   sbefifo_write_common_enter jiffies kz c user data len s"
proof (cases "push_bit 2 (drop_bit 2 len) \<noteq> len \<or> len = 0")
  case True
  then show ?thesis
    by (auto simp: sbefifo_write_common_enter_ev_def sbefifo_write_common_enter_def)
next
  case False
  show ?thesis
  proof (cases "sbefifo_get_client c s")
    case None
    with False show ?thesis
      by (simp add: sbefifo_write_common_enter_ev_def sbefifo_write_common_enter_def)
  next
    case (Some s1)
    show ?thesis
    proof (cases "client_mem s1 c")
      case None
      with False Some show ?thesis
        by (simp add: sbefifo_write_common_enter_ev_def sbefifo_write_common_enter_def)
    next
      case cl: (Some cl)
      show ?thesis
      proof (cases "sbefifo_next_xfr_ev s1")
        case None
        with next_xfr_ev_erase [of s1] have "sbefifo_next_xfr s1 = None"
          by simp
        with None False Some cl show ?thesis
          by (simp add: sbefifo_write_common_enter_ev_def sbefifo_write_common_enter_def)
      next
        case nx: (Some r)
        then obtain evs xfr s2 where r: "r = (evs, xfr, s2)"
          by (cases r) auto
        with next_xfr_ev_erase [of s1] nx have old: "sbefifo_next_xfr s1 = Some (xfr, s2)"
          by simp
        show ?thesis
          using False Some cl nx r old
          by (auto simp: sbefifo_write_common_enter_ev_def sbefifo_write_common_enter_def
              Let_def split: option.splits sum.splits)
      qed
    qed
  qed
qed

lemma remove_ev_erase: "snd (sbefifo_remove_ev s) = sbefifo_remove s"
  by (simp add: sbefifo_remove_ev_def)

section \<open>The global queue\<close>

text \<open>
  Every entry point of the driver either leaves the error code and the queue alone, or
  drops a prefix of the queue, or appends one fresh transfer, or latches an error and
  empties the queue, and it records the matching events.  The record therefore replays
  to the queue of the device in every reachable state, and the transfer that the timer
  function works on is the oldest one pending.
\<close>

lemma next_xfr_scan_shape:
  assumes "next_xfr_scan m q = Some (m1, q1)"
  shows "\<exists>k. k \<le> length q \<and> q1 = drop k q \<and>
             (\<forall>y. m1 y = (if y \<in> set (take k q) then None else m y)) \<and>
             (\<forall>y\<in>set (take k q). \<exists>xfr. m y = Some xfr \<and> xfr_cancel xfr)"
  using assms
proof (induction q arbitrary: m)
  case Nil
  then show ?case by simp
next
  case (Cons x q)
  show ?case
  proof (cases "m x")
    case None
    with Cons.prems show ?thesis by simp
  next
    case (Some xfr)
    show ?thesis
    proof (cases "xfr_cancel xfr")
      case False
      with Cons.prems Some have "m1 = m" "q1 = x # q"
        by simp_all
      then show ?thesis
        by (intro exI [of _ 0]) simp
    next
      case True
      with Cons.prems Some have "next_xfr_scan (m(x := None)) q = Some (m1, q1)"
        by simp
      from Cons.IH [OF this] obtain k where
        k: "k \<le> length q" "q1 = drop k q"
        "\<forall>y. m1 y = (if y \<in> set (take k q) then None else (m(x := None)) y)"
        "\<forall>y\<in>set (take k q). \<exists>xfr. (m(x := None)) y = Some xfr \<and> xfr_cancel xfr"
        by blast
      have "\<forall>y\<in>set (take (Suc k) (x # q)). \<exists>xfr. m y = Some xfr \<and> xfr_cancel xfr"
        using k(4) Some True by (auto split: if_splits)
      moreover have "\<forall>y. m1 y = (if y \<in> set (take (Suc k) (x # q)) then None else m y)"
        using k(3) by auto
      ultimately show ?thesis
        using k(1,2) by (intro exI [of _ "Suc k"]) simp
    qed
  qed
qed

lemma next_xfr_effect:
  assumes "sbefifo_next_xfr s = Some (nx, s1)"
  shows "rc s1 = rc s \<and> client_mem s1 = client_mem s \<and> poll_timer s1 = poll_timer s \<and>
         fsi_dev s1 = fsi_dev s \<and>
         (\<exists>k. k \<le> length (xfrs s) \<and> xfrs s1 = drop k (xfrs s) \<and>
              (\<forall>y. xfr_mem s1 y = (if y \<in> set (take k (xfrs s)) then None else xfr_mem s y)) \<and>
              (\<forall>y\<in>set (take k (xfrs s)). \<exists>xfr. xfr_mem s y = Some xfr \<and> xfr_cancel xfr)) \<and>
         nx = (case xfrs s1 of [] \<Rightarrow> None | x # _ \<Rightarrow> Some x)"
proof -
  from assms obtain m q where
    scan: "next_xfr_scan (xfr_mem s) (xfrs s) = Some (m, q)"
    and s1: "s1 = s\<lparr>xfrs := q, xfr_mem := m\<rparr>"
    and nx: "nx = (case q of [] \<Rightarrow> None | x # _ \<Rightarrow> Some x)"
    by (auto simp: sbefifo_next_xfr_def split: option.splits)
  from next_xfr_scan_shape [OF scan] obtain k where
    "k \<le> length (xfrs s)" "q = drop k (xfrs s)"
    "\<forall>y. m y = (if y \<in> set (take k (xfrs s)) then None else xfr_mem s y)"
    "\<forall>y\<in>set (take k (xfrs s)). \<exists>xfr. xfr_mem s y = Some xfr \<and> xfr_cancel xfr"
    by blast
  then show ?thesis
    unfolding s1 nx by (intro conjI exI [of _ k]) simp_all
qed

lemma q_same_refl [simp]: "q_same s s"
  by (simp add: q_same_def)

lemma q_same_trans: "q_same s s1 \<Longrightarrow> q_same s1 s2 \<Longrightarrow> q_same s s2"
  by (simp add: q_same_def)

lemma q_same_drop: "q_same s s1 \<Longrightarrow> q_drop s s1"
  by (auto simp: q_same_def q_drop_def intro: exI [of _ 0])

lemma q_drop_same: "q_drop s s1 \<Longrightarrow> q_same s1 s2 \<Longrightarrow> q_drop s s2"
  by (auto simp: q_same_def q_drop_def)

lemma q_same_then_drop: "q_same s s1 \<Longrightarrow> q_drop s1 s2 \<Longrightarrow> q_drop s s2"
  by (auto simp: q_same_def q_drop_def)

lemma mod_timer_q [simp]: "q_same s (mod_timer e s)"
  by (simp add: q_same_def mod_timer_def)

lemma next_xfr_q: "sbefifo_next_xfr s = Some (nx, s1) \<Longrightarrow> q_drop s s1"
  using next_xfr_effect [of s nx s1] by (auto simp: q_drop_def)

lemma get_client_q: "sbefifo_get_client c s = Some s1 \<Longrightarrow> q_same s s1"
  by (auto simp: sbefifo_get_client_def q_same_def split: option.splits)

lemma release_xfrs_q: "release_xfrs jiffies l s = Some s1 \<Longrightarrow> q_same s s1"
proof (induction l arbitrary: s)
  case Nil
  then show ?case by simp
next
  case (Cons x l)
  from Cons.prems obtain xfr where x: "xfr_mem s x = Some xfr"
    by (auto split: option.splits)
  show ?case
  proof (cases "xfr_complete xfr")
    case True
    with Cons.prems x have "release_xfrs jiffies l (s\<lparr>xfr_mem := (xfr_mem s)(x := None)\<rparr>) = Some s1"
      by simp
    from Cons.IH [OF this] show ?thesis
      by (simp add: q_same_def)
  next
    case False
    with Cons.prems x have
      "release_xfrs jiffies l
         (mod_timer jiffies (s\<lparr>xfr_mem := (xfr_mem s)(x \<mapsto> xfr\<lparr>xfr_cancel := True\<rparr>)\<rparr>)) = Some s1"
      by simp
    from Cons.IH [OF this] show ?thesis
      by (simp add: q_same_def mod_timer_def)
  qed
qed

lemma client_release_q: "sbefifo_client_release jiffies c s = Some s1 \<Longrightarrow> q_same s s1"
  by (auto simp: sbefifo_client_release_def q_same_def dest!: release_xfrs_q
      split: option.splits if_splits)

lemma put_client_q: "sbefifo_put_client jiffies c s = Some s1 \<Longrightarrow> q_same s s1"
  by (auto simp: sbefifo_put_client_def q_same_def dest!: client_release_q
      split: option.splits if_splits)

lemma call_out_q: "call_out jiffies c r s = Some (r1, s1) \<Longrightarrow> q_same s s1"
  by (auto simp: call_out_def dest: put_client_q)

lemma write_cancel_q: "write_cancel jiffies w ret s = Some (r1, s1) \<Longrightarrow> q_same s s1"
  by (auto simp: write_cancel_def q_same_def mod_timer_def dest!: call_out_q
      split: option.splits)

lemma new_client_q: "sbefifo_new_client kz nb s = (co, s1) \<Longrightarrow> q_same s s1"
  by (auto simp: sbefifo_new_client_def q_same_def split: option.splits)

lemma open_q: "sbefifo_open kz nb s = (r, s1) \<Longrightarrow> q_same s s1"
  by (auto simp: sbefifo_open_def dest: new_client_q split: if_splits prod.splits option.splits)

lemma drv_open_q: "sbefifo_drv_open kz nb s = (r, s1) \<Longrightarrow> q_same s s1"
  by (auto simp: sbefifo_drv_open_def dest: new_client_q)

lemma release_q: "sbefifo_release jiffies c s = Some (r, s1) \<Longrightarrow> q_same s s1"
  by (auto simp: sbefifo_release_def dest: put_client_q)

lemma read_enter_q: "sbefifo_read_common_enter c uf len s = Some (r, s1) \<Longrightarrow> q_same s s1"
  by (auto simp: sbefifo_read_common_enter_def dest: get_client_q
      split: if_splits option.splits)

lemma read_intr_q: "sbefifo_read_common_intr jiffies rd s = Some (r, s1) \<Longrightarrow> q_same s s1"
  by (auto simp: sbefifo_read_common_intr_def dest: call_out_q)

lemma write_intr_q: "sbefifo_write_common_intr jiffies w s = Some (r, s1) \<Longrightarrow> q_same s s1"
  by (auto simp: sbefifo_write_common_intr_def dest: write_cancel_q)

lemma write_iter_q: "sbefifo_write_common_iter jiffies w s = Some (r, s1) \<Longrightarrow> q_same s s1"
proof -
  assume a: "sbefifo_write_common_iter jiffies w s = Some (r, s1)"
  then obtain ready n0 cl where
    rdy: "sbefifo_write_ready s (w_xfr w) (w_client w) = Some (ready, n0)"
    and cl: "client_mem s (w_client w) = Some cl"
    by (auto simp: sbefifo_write_common_iter_def split: option.splits)
  show ?thesis
  proof (cases "rc s \<noteq> 0")
    case True
    with a rdy cl have
      "call_out jiffies (w_client w) (Inl (rc s) :: int + wr_call)
         (s\<lparr>client_mem := (client_mem s)(w_client w \<mapsto> cl\<lparr>client_xfrs := []\<rparr>)\<rparr>) = Some (r, s1)"
      by (simp add: sbefifo_write_common_iter_def)
    from call_out_q [OF this] show ?thesis
      by (simp add: q_same_def)
  next
    case False
    let ?n = "min n0 (w_len w)"
    let ?k = "unat (drop_bit 2 ?n)"
    show ?thesis
    proof (cases "length (w_data w) < ?k")
      case True
      with a rdy cl False obtain r2 where "write_cancel jiffies w (- EFAULT) s = Some (r2, s1)"
        by (auto simp: sbefifo_write_common_iter_def Let_def split: if_splits)
      then show ?thesis
        by (rule write_cancel_q)
    next
      case short: False
      with a rdy cl False obtain xfr where
        x: "xfr_mem s (w_xfr w) = Some xfr" and fit: "\<not> length (buf (wbuf cl)) < wpos (wbuf cl) + ?k"
        by (auto simp: sbefifo_write_common_iter_def Let_def split: if_splits option.splits)
      let ?wb1 = "(wbuf cl)\<lparr>buf := take (wpos (wbuf cl)) (buf (wbuf cl)) @ take ?k (w_data w) @
                                  drop (wpos (wbuf cl) + ?k) (buf (wbuf cl))\<rparr>"
      let ?s1 = "mod_timer jiffies
                   (s\<lparr>client_mem := (client_mem s)(w_client w \<mapsto>
                          cl\<lparr>wbuf := snd (sbefifo_buf_wrotenb ?wb1 ?n)\<rparr>),
                      xfr_mem := (xfr_mem s)(w_xfr w \<mapsto>
                          (if w_len w - ?n = 0 then xfr\<lparr>xfr_write_done := True\<rparr> else xfr))\<rparr>)"
      have q1: "q_same s ?s1"
        by (simp add: q_same_def mod_timer_def)
      show ?thesis
      proof (cases "w_len w - ?n \<noteq> 0")
        case True
        with a rdy cl False short x fit have "s1 = ?s1"
          by (simp add: sbefifo_write_common_iter_def Let_def)
        with q1 show ?thesis by simp
      next
        case last: False
        with a rdy cl False short x fit have
          "call_out jiffies (w_client w) (Inl (w_ret w + sint ?n) :: int + wr_call) ?s1 = Some (r, s1)"
          by (simp add: sbefifo_write_common_iter_def Let_def)
        from q_same_trans [OF q1 call_out_q [OF this]] show ?thesis .
      qed
    qed
  qed
qed

lemma read_body_q: "sbefifo_read_common_body jiffies past rd s = Some (r, s1) \<Longrightarrow> q_same s s1"
  by (auto simp: sbefifo_read_common_body_def Let_def q_same_def mod_timer_def
      dest!: call_out_q split: if_splits option.splits prod.splits list.splits)

lemma write_enter_q:
  assumes "sbefifo_write_common_enter jiffies kz c user data len s = Some (r, s1)"
  shows "rc s1 = rc s \<and>
         (\<exists>k. xfrs s1 = drop k (xfrs s) @ (case r of Inl _ \<Rightarrow> [] | Inr w \<Rightarrow> [w_xfr w])) \<and>
         (case r of Inl _ \<Rightarrow> True | Inr w \<Rightarrow> kz = Some (w_xfr w) \<and> rc s = 0 \<and> w_client w = c)"
proof (cases "push_bit 2 (drop_bit 2 len) \<noteq> len \<or> len = 0")
  case True
  with assms have "s1 = s" and "\<exists>e. r = Inl e"
    by (auto simp: sbefifo_write_common_enter_def split: if_splits)
  then show ?thesis
    by (auto intro: exI [of _ 0])
next
  case False
  with assms obtain sg cl nx s2 where
    g: "sbefifo_get_client c s = Some sg" and cl: "client_mem sg c = Some cl"
    and nx: "sbefifo_next_xfr sg = Some (nx, s2)"
    by (auto simp: sbefifo_write_common_enter_def Let_def split: option.splits)
  have d: "q_drop s s2"
    using get_client_q [OF g] next_xfr_q [OF nx] by (rule q_same_then_drop)
  show ?thesis
  proof (cases "o_nonblock cl \<and> nx \<noteq> None \<and> sbefifo_buf_nbwriteable (wbuf cl) < len")
    case True
    with assms False g cl nx have
      "call_out jiffies c (Inl (- EAGAIN) :: int + wr_call) s2 = Some (r, s1)"
      by (auto simp: sbefifo_write_common_enter_def Let_def split: if_splits)
    then have "q_same s2 s1" and "\<exists>e. r = Inl e"
      by (auto simp: call_out_def dest: put_client_q)
    with d show ?thesis
      by (auto simp: q_same_def q_drop_def)
  next
    case nb: False
    with assms False g cl nx obtain r3 s3 where
      e: "sbefifo_enq_xfr kz c s2 = Some (r3, s3)"
      by (auto simp: sbefifo_write_common_enter_def Let_def split: option.splits)
    show ?thesis
    proof (cases r3)
      case (Inl e3)
      with assms False g cl nx nb e have
        "call_out jiffies c (Inl e3 :: int + wr_call) s3 = Some (r, s1)"
        by (auto simp: sbefifo_write_common_enter_def Let_def split: if_splits)
      then have "q_same s3 s1" and "\<exists>e. r = Inl e"
        by (auto simp: call_out_def dest: put_client_q)
      moreover have "s3 = s2"
        using e Inl by (auto simp: sbefifo_enq_xfr_def split: if_splits option.splits)
      ultimately show ?thesis
        using d by (auto simp: q_same_def q_drop_def)
    next
      case (Inr x)
      with assms False g cl nx nb e have
        r: "r = Inr \<lparr>w_client = c, w_xfr = x, w_user = user, w_data = data, w_len = len, w_ret = 0\<rparr>"
        and s1: "s1 = s3"
        by (auto simp: sbefifo_write_common_enter_def Let_def split: if_splits)
      have "kz = Some x \<and> rc s2 = 0 \<and> xfrs s3 = xfrs s2 @ [x] \<and> rc s3 = rc s2"
        using e Inr by (auto simp: sbefifo_enq_xfr_def split: if_splits option.splits)
      then show ?thesis
        using d r s1 by (auto simp: q_drop_def)
    qed
  qed
qed

lemma tick_store_q [simp]: "q_same s (tick_store s x xfr rb wb d)"
  by (simp add: q_same_def tick_store_def)

lemma tick_finish_q:
  assumes "tick_finish P jiffies x ex s = Some s1" and "xfrs s = x # q"
  shows "q_drop s s1 \<or> (rc s1 \<noteq> 0 \<and> xfrs s1 = [])"
proof (cases ex)
  case Loop_done
  with assms show ?thesis
    by (auto simp: tick_finish_def intro: q_same_drop)
next
  case Loop_break
  with assms obtain s2 nx s3 where
    c: "tick_complete x s = Some s2" and n: "sbefifo_next_xfr s2 = Some (nx, s3)"
    and s1: "s1 = (if nx \<noteq> None then s3\<lparr>poll_timer := Some jiffies\<rparr> else s3)"
    by (auto simp: tick_finish_def split: option.splits)
  from c assms(2) have "rc s2 = rc s" "xfrs s2 = drop 1 (xfrs s)"
    by (auto simp: tick_complete_def split: option.splits)
  moreover from next_xfr_q [OF n] obtain k where "rc s3 = rc s2" "xfrs s3 = drop k (xfrs s2)"
    by (auto simp: q_drop_def)
  ultimately have "rc s1 = rc s" "xfrs s1 = drop (k + 1) (xfrs s)"
    using s1 by (simp_all add: add.commute)
  then show ?thesis
    by (auto simp: q_drop_def)
next
  case (Goto_out ret)
  with assms show ?thesis
    by (auto simp: tick_finish_def tick_fatal_def intro: q_same_drop split: if_splits)
next
  case Goto_out_unlock
  with assms have "q_same s s1"
    by (auto simp: tick_finish_def q_same_def)
  then show ?thesis
    by (auto intro: q_same_drop)
qed

lemma poll_timer_q:
  assumes "sbefifo_poll_timer P jiffies s = Some (acc, s1)"
  shows "(q_drop s s1 \<or> (rc s1 \<noteq> 0 \<and> xfrs s1 = [])) \<and> (xfrs s = [] \<longrightarrow> acc = [])"
proof (cases "xfrs s")
  case Nil
  with assms show ?thesis
    by (auto simp: sbefifo_poll_timer_def q_drop_def intro: exI [of _ 0])
next
  case (Cons x q)
  let ?s = "s\<lparr>poll_timer := None\<rparr>"
  from assms Cons obtain ex f rb1 wb1 xfr2 where
    fin: "tick_finish P jiffies x ex (tick_store ?s x xfr2 rb1 wb1 (fst f)) = Some s1"
    by (auto simp: sbefifo_poll_timer_def Let_def split: option.splits)
  have "xfrs (tick_store ?s x xfr2 rb1 wb1 (fst f)) = x # q"
    using Cons by (simp add: tick_store_def)
  from tick_finish_q [OF fin this] show ?thesis
    using Cons by (auto simp: q_drop_def tick_store_def)
qed

lemma pending_rev: "pending (rev evs @ tr) = foldl apply_ev (pending tr) evs"
proof (induction evs arbitrary: tr)
  case Nil
  show ?case by simp
next
  case (Cons e evs)
  have "pending (rev (e # evs) @ tr) = pending (rev evs @ e # tr)"
    by simp
  also have "\<dots> = foldl apply_ev (pending (e # tr)) evs"
    by (rule Cons.IH)
  also have "pending (e # tr) = apply_ev (pending tr) e"
    by (cases e) simp_all
  finally show ?case by simp
qed

lemma foldl_access [simp]: "foldl apply_ev q (map (Ev_access h) acc) = q"
  by (induction acc) simp_all

lemma foldl_enq [simp]: "foldl apply_ev q (map Ev_enq l) = q @ l"
  by (induction l arbitrary: q) simp_all

lemma filter_removeAll:
  "filter (\<lambda>z. z \<notin> set l) (removeAll x q) = filter (\<lambda>z. z \<notin> set (x # l)) q"
  by (induction q) auto

lemma foldl_discard: "foldl apply_ev q (map Ev_discard l) = filter (\<lambda>x. x \<notin> set l) q"
proof (induction l arbitrary: q)
  case Nil
  show ?case by simp
next
  case (Cons x l)
  then show ?case
    by (simp add: filter_removeAll del: set_simps)
qed

lemma foldl_flushed: "foldl apply_ev q (map Ev_flushed l) = filter (\<lambda>x. x \<notin> set l) q"
proof (induction l arbitrary: q)
  case Nil
  show ?case by simp
next
  case (Cons x l)
  then show ?case
    by (simp add: filter_removeAll del: set_simps)
qed

lemma foldl_unlinked: "foldl apply_ev q (unlinked b l) = filter (\<lambda>x. x \<notin> set l) q"
proof (cases l)
  case Nil
  then show ?thesis
    by (simp add: unlinked_def)
next
  case (Cons x l')
  have "foldl apply_ev q (unlinked b l) = foldl apply_ev (removeAll x q) (map Ev_discard l')"
    using Cons by (simp add: unlinked_def)
  also have "\<dots> = filter (\<lambda>z. z \<notin> set (x # l')) q"
    unfolding foldl_discard by (rule filter_removeAll)
  finally show ?thesis
    using Cons by simp
qed

lemma unlinked_Nil [simp]: "unlinked b [] = []"
  by (simp add: unlinked_def)

lemma unlinked_discard: "unlinked False l = map Ev_discard l"
  by (cases l) (simp_all add: unlinked_def)

lemma unlinked_complete: "unlinked True (x # l) = Ev_complete x # map Ev_discard l"
  by (simp add: unlinked_def)

lemma filter_take_distinct:
  assumes "distinct q"
  shows "filter (\<lambda>x. x \<notin> set (take k q)) q = drop k q"
proof -
  have d: "set (take k q) \<inter> set (drop k q) = {}"
    using assms by (metis append_take_drop_id distinct_append)
  have 1: "filter (\<lambda>x. x \<notin> set (take k q)) (take k q) = []"
    by (auto simp: filter_empty_conv)
  have 2: "filter (\<lambda>x. x \<notin> set (take k q)) (drop k q) = drop k q"
    using d by (auto simp: filter_id_conv)
  have "filter (\<lambda>x. x \<notin> set (take k q)) (take k q @ drop k q) = drop k q"
    unfolding filter_append 1 2 by simp
  then show ?thesis
    by simp
qed

text \<open>The events and the queue after \<open>sbefifo_write_common_enter\<close>.\<close>

lemma write_enter_ev_shape:
  assumes "sbefifo_write_common_enter_ev jiffies kz c user data len s = Some (evs, r, s1)"
  shows "rc s1 = rc s \<and>
         (\<exists>k. xfrs s1 = drop k (xfrs s) @ (case r of Inl _ \<Rightarrow> [] | Inr w \<Rightarrow> [w_xfr w]) \<and>
              evs = map Ev_discard (take k (xfrs s)) @
                    map Ev_enq (case r of Inl _ \<Rightarrow> [] | Inr w \<Rightarrow> [w_xfr w])) \<and>
         (case r of Inl _ \<Rightarrow> True | Inr w \<Rightarrow> kz = Some (w_xfr w) \<and> rc s = 0 \<and> w_client w = c)"
proof (cases "push_bit 2 (drop_bit 2 len) \<noteq> len \<or> len = 0")
  case True
  with assms have "s1 = s" and "\<exists>e. r = Inl e" and "evs = []"
    by (auto simp: sbefifo_write_common_enter_ev_def split: if_splits)
  then show ?thesis
    by (auto intro: exI [of _ 0])
next
  case False
  with assms obtain sg cl ev2 nx s2 where
    g: "sbefifo_get_client c s = Some sg" and cl: "client_mem sg c = Some cl"
    and nx: "sbefifo_next_xfr_ev sg = Some (ev2, nx, s2)"
    by (auto simp: sbefifo_write_common_enter_ev_def Let_def split: option.splits)
  from next_xfr_ev_events [OF nx] obtain k where
    old: "sbefifo_next_xfr sg = Some (nx, s2)"
    and k: "ev2 = map Ev_discard (take k (xfrs sg))" "xfrs s2 = drop k (xfrs sg)"
    by blast
  have sg: "rc sg = rc s" "xfrs sg = xfrs s"
    using get_client_q [OF g] by (simp_all add: q_same_def)
  have rc2: "rc s2 = rc s"
    using next_xfr_q [OF old] sg by (simp add: q_drop_def)
  show ?thesis
  proof (cases "o_nonblock cl \<and> nx \<noteq> None \<and> sbefifo_buf_nbwriteable (wbuf cl) < len")
    case True
    with assms False g cl nx obtain r' where
      "call_out jiffies c (Inl (- EAGAIN) :: int + wr_call) s2 = Some r'" "(evs, r, s1) = (ev2, r')"
      by (auto simp: sbefifo_write_common_enter_ev_def Let_def split: if_splits)
    then have "q_same s2 s1" and "\<exists>e. r = Inl e" and "evs = ev2"
      by (auto simp: call_out_def dest: put_client_q)
    with k sg rc2 show ?thesis
      by (auto simp: q_same_def)
  next
    case nb: False
    with assms False g cl nx obtain r3 s3 where
      e: "sbefifo_enq_xfr kz c s2 = Some (r3, s3)"
      by (auto simp: sbefifo_write_common_enter_ev_def Let_def split: option.splits)
    show ?thesis
    proof (cases r3)
      case (Inl e3)
      with assms False g cl nx nb e obtain r' where
        "call_out jiffies c (Inl e3 :: int + wr_call) s3 = Some r'" "(evs, r, s1) = (ev2, r')"
        by (auto simp: sbefifo_write_common_enter_ev_def Let_def split: if_splits)
      then have "q_same s3 s1" and "\<exists>e. r = Inl e" and "evs = ev2"
        by (auto simp: call_out_def dest: put_client_q)
      moreover have "s3 = s2"
        using e Inl by (auto simp: sbefifo_enq_xfr_def split: if_splits option.splits)
      ultimately show ?thesis
        using k sg rc2 by (auto simp: q_same_def)
    next
      case (Inr x)
      with assms False g cl nx nb e have
        r: "r = Inr \<lparr>w_client = c, w_xfr = x, w_user = user, w_data = data, w_len = len, w_ret = 0\<rparr>"
        and s1: "s1 = s3" and evs: "evs = ev2 @ [Ev_enq x]"
        by (auto simp: sbefifo_write_common_enter_ev_def Let_def split: if_splits)
      have "kz = Some x \<and> rc s2 = 0 \<and> xfrs s3 = xfrs s2 @ [x] \<and> rc s3 = rc s2"
        using e Inr by (auto simp: sbefifo_enq_xfr_def split: if_splits option.splits)
      then show ?thesis
        using k sg rc2 r s1 evs by auto
    qed
  qed
qed

text \<open>The events and the queue after the timer function.\<close>

lemma tick_finish_ev_shape:
  assumes "tick_finish_ev P jiffies x ex s = Some (evs, s1)" and "xfrs s = x # q"
  shows "(rc s1 = rc s \<and>
          (\<exists>k b. xfrs s1 = drop k (xfrs s) \<and> evs = unlinked b (take k (xfrs s)))) \<or>
         (rc s1 \<noteq> 0 \<and> xfrs s1 = [] \<and> evs = map Ev_flushed (xfrs s))"
proof (cases ex)
  case Loop_done
  with assms have "rc s1 = rc s" "xfrs s1 = drop 0 (xfrs s)" "evs = unlinked False (take 0 (xfrs s))"
    by (auto simp: tick_finish_ev_def)
  then show ?thesis
    by blast
next
  case Loop_break
  with assms obtain s2 ev2 nx s3 where
    c: "tick_complete x s = Some s2" and n: "sbefifo_next_xfr_ev s2 = Some (ev2, nx, s3)"
    and s1: "s1 = (if nx \<noteq> None then s3\<lparr>poll_timer := Some jiffies\<rparr> else s3)"
    and evs: "evs = Ev_complete x # ev2"
    by (auto simp: tick_finish_ev_def split: option.splits)
  from c assms(2) have s2: "rc s2 = rc s" "xfrs s2 = q"
    by (auto simp: tick_complete_def split: option.splits)
  from next_xfr_ev_events [OF n] obtain k where
    old: "sbefifo_next_xfr s2 = Some (nx, s3)"
    and k: "ev2 = map Ev_discard (take k (xfrs s2))" "xfrs s3 = drop k (xfrs s2)"
    by blast
  have "rc s3 = rc s2"
    using next_xfr_q [OF old] by (simp add: q_drop_def)
  then have "rc s1 = rc s" "xfrs s1 = drop (Suc k) (xfrs s)"
    "evs = unlinked True (take (Suc k) (xfrs s))"
    using s1 s2 k evs assms(2) by (simp_all add: unlinked_complete)
  then show ?thesis
    by blast
next
  case (Goto_out ret)
  show ?thesis
  proof (cases "ret = 0")
    case True
    with Goto_out assms have
      "rc s1 = rc s" "xfrs s1 = drop 0 (xfrs s)" "evs = unlinked False (take 0 (xfrs s))"
      by (auto simp: tick_finish_ev_def)
    then show ?thesis
      by blast
  next
    case False
    with Goto_out assms show ?thesis
      by (auto simp: tick_finish_ev_def tick_fatal_def)
  qed
next
  case Goto_out_unlock
  with assms have
    "rc s1 = rc s" "xfrs s1 = drop 0 (xfrs s)" "evs = unlinked False (take 0 (xfrs s))"
    by (auto simp: tick_finish_ev_def)
  then show ?thesis
    by blast
qed

lemma tick_serve_shape:
  assumes "tick_serve P jiffies s x = Some (evs, ex, s1)"
  shows "rc s1 = rc s \<and> xfrs s1 = xfrs s \<and> (\<exists>acc. evs = map (Ev_access x) acc)"
  using assms by (auto simp: tick_serve_def Let_def tick_store_def split: option.splits)

lemma poll_timer_ev_shape:
  assumes "sbefifo_poll_timer_ev P jiffies s = Some (evs, s1)"
  shows "\<exists>acc. (xfrs s = [] \<longrightarrow> acc = []) \<and>
           ((rc s1 = rc s \<and>
             (\<exists>k b. xfrs s1 = drop k (xfrs s) \<and>
                evs = map (Ev_access (hd (xfrs s))) acc @ unlinked b (take k (xfrs s)))) \<or>
            (rc s1 \<noteq> 0 \<and> xfrs s1 = [] \<and>
             evs = map (Ev_access (hd (xfrs s))) acc @ map Ev_flushed (xfrs s)))"
proof (cases "xfrs s")
  case Nil
  with assms have "rc s1 = rc s" "xfrs s1 = drop 0 (xfrs s)"
    "evs = map (Ev_access (hd (xfrs s))) [] @ unlinked False (take 0 (xfrs s))"
    by (auto simp: sbefifo_poll_timer_ev_def)
  then show ?thesis
    by blast
next
  case (Cons x q)
  let ?s = "s\<lparr>poll_timer := None\<rparr>"
  from assms Cons obtain ev1 ex sa ev2 where
    sv: "tick_serve P jiffies ?s x = Some (ev1, ex, sa)"
    and fin: "tick_finish_ev P jiffies x ex sa = Some (ev2, s1)"
    and evs: "evs = ev1 @ ev2"
    by (auto simp: sbefifo_poll_timer_ev_def Let_def split: option.splits)
  from tick_serve_shape [OF sv] obtain acc where
    sa: "rc sa = rc s" "xfrs sa = xfrs s" and ev1: "ev1 = map (Ev_access x) acc"
    by auto
  have "xfrs sa = x # q"
    using sa Cons by simp
  from tick_finish_ev_shape [OF fin this] show ?thesis
  proof
    assume "rc s1 = rc sa \<and>
            (\<exists>k b. xfrs s1 = drop k (xfrs sa) \<and> ev2 = unlinked b (take k (xfrs sa)))"
    then obtain k b where "rc s1 = rc sa" "xfrs s1 = drop k (xfrs sa)"
      "ev2 = unlinked b (take k (xfrs sa))"
      by blast
    then have "rc s1 = rc s \<and>
               (\<exists>k b. xfrs s1 = drop k (xfrs s) \<and>
                  evs = map (Ev_access (hd (xfrs s))) acc @ unlinked b (take k (xfrs s)))"
      using sa evs ev1 Cons by auto
    then show ?thesis
      using Cons by (intro exI [of _ acc]) simp
  next
    assume "rc s1 \<noteq> 0 \<and> xfrs s1 = [] \<and> ev2 = map Ev_flushed (xfrs sa)"
    then have "rc s1 \<noteq> 0 \<and> xfrs s1 = [] \<and>
               evs = map (Ev_access (hd (xfrs s))) acc @ map Ev_flushed (xfrs s)"
      using sa evs ev1 Cons by auto
    then show ?thesis
      using Cons by (intro exI [of _ acc]) simp
  qed
qed

lemma remove_q: "rc (sbefifo_remove s) \<noteq> 0 \<and> xfrs (sbefifo_remove s) = []"
  by (simp add: sbefifo_remove_def tick_fatal_def ENODEV_def)

lemma logged_simps [simp]:
  "sbe (logged y evs s1) = s1" "sleeping (logged y evs s1) = sleeping y"
  "handles (logged y evs s1) = handles y" "next_xfr_addr (logged y evs s1) = next_xfr_addr y"
  "next_client_addr (logged y evs s1) = next_client_addr y"
  "trace (logged y evs s1) = rev evs @ trace y"
  by (simp_all add: logged_def)

lemma step_shapeI:
  assumes "trace y1 = rev evs @ trace y" and "next_xfr_addr y \<le> next_xfr_addr y1"
    and "xfrs (sbe y) = [] \<longrightarrow> acc = []"
    and "rc (sbe y1) = rc (sbe y)"
    and "xfrs (sbe y1) = drop k (xfrs (sbe y)) @ n"
    and "evs = map (Ev_access (hd (xfrs (sbe y)))) acc @ unlinked b (take k (xfrs (sbe y))) @
               map Ev_enq n"
    and "n = [] \<or> (n = [next_xfr_addr y] \<and> next_xfr_addr y1 = Suc (next_xfr_addr y) \<and>
                     rc (sbe y) = 0)"
  shows "step_shape y evs y1"
  unfolding step_shape_def
  apply (intro conjI assms(1,2) exI [of _ acc] assms(3) disjI1 assms(4))
  apply (intro exI [of _ k] exI [of _ n] exI [of _ b] conjI assms(5,6,7))
  done

lemma step_shape_fatalI:
  assumes "trace y1 = rev evs @ trace y" and "next_xfr_addr y \<le> next_xfr_addr y1"
    and "xfrs (sbe y) = [] \<longrightarrow> acc = []"
    and "rc (sbe y1) \<noteq> 0" and "xfrs (sbe y1) = []"
    and "evs = map (Ev_access (hd (xfrs (sbe y)))) acc @ map Ev_flushed (xfrs (sbe y))"
  shows "step_shape y evs y1"
  unfolding step_shape_def
  apply (intro conjI assms(1,2) exI [of _ acc] assms(3) disjI2 assms(4,5,6))
  done

lemma shape_same:
  assumes "q_same (sbe y) s1" and "sbe y1 = s1" and "trace y1 = trace y"
    and "next_xfr_addr y \<le> next_xfr_addr y1"
  shows "step_shape y [] y1"
proof (rule step_shapeI [where acc = "[]" and k = 0 and n = "[]" and b = False])
  show "trace y1 = rev [] @ trace y"
    using assms(3) by simp
  show "rc (sbe y1) = rc (sbe y)" "xfrs (sbe y1) = drop 0 (xfrs (sbe y)) @ []"
    using assms(1,2) by (simp_all add: q_same_def)
qed (simp_all add: assms(4))

lemma sys_step_shape:
  assumes "sys_step P op y = Some y1"
  shows "\<exists>evs. step_shape y evs y1"
proof (cases op)
  case (Op_open ok nb)
  with assms obtain r s1 where
    "sbefifo_open (kzalloc_at ok (next_client_addr y)) nb (sbe y) = (r, s1)"
    and "sbe y1 = s1" "trace y1 = trace y" "next_xfr_addr y1 = next_xfr_addr y"
    by (auto split: prod.splits)
  then show ?thesis
    by (auto intro!: exI [of _ "[]"] shape_same dest: open_q)
next
  case (Op_drv_open ok nb)
  with assms obtain r s1 where
    "sbefifo_drv_open (kzalloc_at ok (next_client_addr y)) nb (sbe y) = (r, s1)"
    and "sbe y1 = s1" "trace y1 = trace y" "next_xfr_addr y1 = next_xfr_addr y"
    by (auto split: prod.splits)
  then show ?thesis
    by (auto intro!: exI [of _ "[]"] shape_same dest: drv_open_q)
next
  case (Op_write jiffies ok c user data len)
  with assms obtain evs r s1 where
    e: "sbefifo_write_common_enter_ev jiffies (kzalloc_at ok (next_xfr_addr y)) c user data len
          (sbe y) = Some (evs, r, s1)"
    and y1: "sbe y1 = s1" "trace y1 = rev evs @ trace y"
      "next_xfr_addr y1 = Suc (next_xfr_addr y)"
    by (auto split: if_splits option.splits)
  let ?n = "case r of Inl _ \<Rightarrow> [] | Inr w \<Rightarrow> [w_xfr w]"
  from write_enter_ev_shape [OF e] obtain k where
    rc: "rc s1 = rc (sbe y)"
    and q: "xfrs s1 = drop k (xfrs (sbe y)) @ ?n"
    and ev: "evs = map Ev_discard (take k (xfrs (sbe y))) @ map Ev_enq ?n"
    and w: "case r of Inl _ \<Rightarrow> True
            | Inr w \<Rightarrow> kzalloc_at ok (next_xfr_addr y) = Some (w_xfr w) \<and> rc (sbe y) = 0 \<and>
                w_client w = c"
    by blast
  have n: "?n = [] \<or> (?n = [next_xfr_addr y] \<and> rc (sbe y) = 0)"
    using w by (cases r) (auto simp: kzalloc_at_def split: if_splits)
  have "evs = map (Ev_access (hd (xfrs (sbe y)))) [] @
                unlinked False (take k (xfrs (sbe y))) @ map Ev_enq ?n"
    using ev by (simp add: unlinked_discard)
  moreover have "?n = [] \<or> (?n = [next_xfr_addr y] \<and>
                   next_xfr_addr y1 = Suc (next_xfr_addr y) \<and> rc (sbe y) = 0)"
    using n y1(3) by auto
  moreover have "rc (sbe y1) = rc (sbe y)" "xfrs (sbe y1) = drop k (xfrs (sbe y)) @ ?n"
    using rc q y1(1) by simp_all
  moreover have "next_xfr_addr y \<le> next_xfr_addr y1"
    using y1(3) by simp
  ultimately have "step_shape y evs y1"
    using y1(2) by (intro step_shapeI [where acc = "[]" and k = k and n = ?n and b = False]) simp_all
  then show ?thesis ..
next
  case (Op_write_wake jiffies w)
  with assms obtain r s1 where
    "sbefifo_write_common_iter jiffies w (sbe y) = Some (r, s1)"
    and "sbe y1 = s1" "trace y1 = trace y" "next_xfr_addr y1 = next_xfr_addr y"
    by (auto split: if_splits option.splits)
  then show ?thesis
    by (auto intro!: exI [of _ "[]"] shape_same dest: write_iter_q)
next
  case (Op_write_signal jiffies w)
  with assms obtain r s1 where
    "sbefifo_write_common_intr jiffies w (sbe y) = Some (r, s1)"
    and "sbe y1 = s1" "trace y1 = trace y" "next_xfr_addr y1 = next_xfr_addr y"
    by (auto split: if_splits option.splits)
  then show ?thesis
    by (auto intro!: exI [of _ "[]"] shape_same dest: write_intr_q)
next
  case (Op_read c uf len)
  with assms obtain r s1 where
    "sbefifo_read_common_enter c uf len (sbe y) = Some (r, s1)"
    and "sbe y1 = s1" "trace y1 = trace y" "next_xfr_addr y1 = next_xfr_addr y"
    by (auto split: if_splits option.splits)
  then show ?thesis
    by (auto intro!: exI [of _ "[]"] shape_same dest: read_enter_q)
next
  case (Op_read_wake jiffies past rd)
  with assms obtain r s1 where
    "sbefifo_read_common_body jiffies past rd (sbe y) = Some (r, s1)"
    and "sbe y1 = s1" "trace y1 = trace y" "next_xfr_addr y1 = next_xfr_addr y"
    by (auto split: if_splits option.splits)
  then show ?thesis
    by (auto intro!: exI [of _ "[]"] shape_same dest: read_body_q)
next
  case (Op_read_signal jiffies rd)
  with assms obtain r s1 where
    "sbefifo_read_common_intr jiffies rd (sbe y) = Some (r, s1)"
    and "sbe y1 = s1" "trace y1 = trace y" "next_xfr_addr y1 = next_xfr_addr y"
    by (auto split: if_splits option.splits)
  then show ?thesis
    by (auto intro!: exI [of _ "[]"] shape_same dest: read_intr_q)
next
  case (Op_release jiffies c)
  with assms obtain r s1 where
    "sbefifo_release jiffies c (sbe y) = Some (r, s1)"
    and "sbe y1 = s1" "trace y1 = trace y" "next_xfr_addr y1 = next_xfr_addr y"
    by (auto split: if_splits option.splits)
  then show ?thesis
    by (auto intro!: exI [of _ "[]"] shape_same dest: release_q)
next
  case (Op_tick jiffies)
  with assms obtain evs s1 where
    t: "sbefifo_poll_timer_ev P jiffies (sbe y) = Some (evs, s1)" and y1: "y1 = logged y evs s1"
    by (auto split: if_splits option.splits)
  have tr: "trace y1 = rev evs @ trace y" "next_xfr_addr y \<le> next_xfr_addr y1" "sbe y1 = s1"
    unfolding y1 by simp_all
  from poll_timer_ev_shape [OF t] obtain acc where
    a: "xfrs (sbe y) = [] \<longrightarrow> acc = []"
    and s: "(rc s1 = rc (sbe y) \<and>
             (\<exists>k b. xfrs s1 = drop k (xfrs (sbe y)) \<and>
                evs = map (Ev_access (hd (xfrs (sbe y)))) acc @
                      unlinked b (take k (xfrs (sbe y))))) \<or>
            (rc s1 \<noteq> 0 \<and> xfrs s1 = [] \<and>
             evs = map (Ev_access (hd (xfrs (sbe y)))) acc @ map Ev_flushed (xfrs (sbe y)))"
    by blast
  from s have "step_shape y evs y1"
  proof
    assume "rc s1 = rc (sbe y) \<and>
             (\<exists>k b. xfrs s1 = drop k (xfrs (sbe y)) \<and>
                evs = map (Ev_access (hd (xfrs (sbe y)))) acc @
                      unlinked b (take k (xfrs (sbe y))))"
    then obtain k b where "rc s1 = rc (sbe y)" "xfrs s1 = drop k (xfrs (sbe y))"
      "evs = map (Ev_access (hd (xfrs (sbe y)))) acc @ unlinked b (take k (xfrs (sbe y)))"
      by blast
    with tr a show ?thesis
      by (intro step_shapeI [where acc = acc and k = k and n = "[]" and b = b]) simp_all
  next
    assume "rc s1 \<noteq> 0 \<and> xfrs s1 = [] \<and>
            evs = map (Ev_access (hd (xfrs (sbe y)))) acc @ map Ev_flushed (xfrs (sbe y))"
    with tr a show ?thesis
      by (intro step_shape_fatalI [where acc = acc]) simp_all
  qed
  then show ?thesis ..
next
  case Op_remove
  with assms have y1: "y1 = logged y (map Ev_flushed (xfrs (sbe y))) (sbefifo_remove (sbe y))"
    by (simp add: sbefifo_remove_ev_def)
  have "step_shape y (map Ev_flushed (xfrs (sbe y))) y1"
    unfolding y1 using remove_q [of "sbe y"]
    by (intro step_shape_fatalI [where acc = "[]"]) simp_all
  then show ?thesis ..
qed

lemma enq_ids_append [simp]: "enq_ids (a @ b) = enq_ids a @ enq_ids b"
  by (induction a rule: enq_ids.induct) simp_all

lemma enq_ids_rev [simp]: "enq_ids (rev a) = rev (enq_ids a)"
  by (induction a rule: enq_ids.induct) simp_all

lemma enq_ids_access [simp]: "enq_ids (map (Ev_access h) acc) = []"
  by (induction acc) simp_all

lemma enq_ids_enq [simp]: "enq_ids (map Ev_enq l) = l"
  by (induction l) simp_all

lemma enq_ids_gone [simp]:
  "enq_ids (map Ev_discard l) = []" "enq_ids (map Ev_flushed l) = []"
  by (induction l) simp_all

lemma enq_ids_unlinked [simp]: "enq_ids (unlinked b l) = []"
  by (cases l) (simp_all add: unlinked_def)

lemma flushed_access [simp]: "\<not> list_ex is_flushed (map (Ev_access h) acc)"
  by (induction acc) simp_all

lemma flushed_enq [simp]: "\<not> list_ex is_flushed (map Ev_enq l)"
  by (induction l) simp_all

lemma flushed_discard [simp]: "\<not> list_ex is_flushed (map Ev_discard l)"
  by (induction l) simp_all

lemma flushed_unlinked [simp]: "\<not> list_ex is_flushed (unlinked b l)"
  by (cases l) (simp_all add: unlinked_def)

lemma list_ex_rev [simp]: "list_ex p (rev l) = list_ex p l"
  by (simp add: list_ex_iff)

lemma noacc_enq [simp]: "list_all (\<lambda>e. \<not> is_access e) (map Ev_enq l)"
  by (induction l) simp_all

lemma noacc_discard [simp]: "list_all (\<lambda>e. \<not> is_access e) (map Ev_discard l)"
  by (induction l) simp_all

lemma noacc_flushed [simp]: "list_all (\<lambda>e. \<not> is_access e) (map Ev_flushed l)"
  by (induction l) simp_all

lemma noacc_unlinked [simp]: "list_all (\<lambda>e. \<not> is_access e) (unlinked b l)"
  by (cases l) (simp_all add: unlinked_def)

lemma fifo_served_noacc:
  "list_all (\<lambda>e. \<not> is_access e) evs \<Longrightarrow> fifo_served (evs @ tr) = fifo_served tr"
proof (induction evs)
  case Nil
  show ?case by simp
next
  case (Cons e evs)
  then show ?case by (cases e) simp_all
qed

lemma pending_access [simp]: "pending (map (Ev_access h) acc @ tr) = pending tr"
  by (induction acc) simp_all

lemma fifo_served_accs:
  "fifo_served (map (Ev_access h) acc @ tr) =
     (fifo_served tr \<and>
      (acc \<noteq> [] \<longrightarrow> (case pending tr of [] \<Rightarrow> False | x # _ \<Rightarrow> x = h) \<and>
                     \<not> list_ex is_flushed tr))"
  by (induction acc) auto

text \<open>
  What a step shape says, in the form the invariant needs: the events are the accesses
  for the head of the queue, then the events \<open>gone\<close> of the transfers unlinked, then the
  transfer enqueued.
\<close>

lemma step_shape_events:
  assumes "step_shape y evs y1" and d: "distinct (xfrs (sbe y))"
  shows "\<exists>acc gone k n.
           evs = map (Ev_access (hd (xfrs (sbe y)))) acc @ gone @ map Ev_enq n \<and>
           (xfrs (sbe y) = [] \<longrightarrow> acc = []) \<and>
           xfrs (sbe y1) = drop k (xfrs (sbe y)) @ n \<and>
           foldl apply_ev (xfrs (sbe y)) gone = drop k (xfrs (sbe y)) \<and>
           enq_ids gone = [] \<and> list_all (\<lambda>e. \<not> is_access e) gone \<and>
           (rc (sbe y1) = 0 \<longrightarrow> \<not> list_ex is_flushed gone) \<and>
           (n = [] \<or> (n = [next_xfr_addr y] \<and> next_xfr_addr y1 = Suc (next_xfr_addr y) \<and>
                       rc (sbe y) = 0)) \<and>
           (rc (sbe y1) = rc (sbe y) \<or> (rc (sbe y1) \<noteq> 0 \<and> xfrs (sbe y1) = []))"
proof -
  let ?q = "xfrs (sbe y)"
  from assms(1) obtain acc where a: "?q = [] \<longrightarrow> acc = []"
    and c: "(rc (sbe y1) = rc (sbe y) \<and>
             (\<exists>k n b. xfrs (sbe y1) = drop k ?q @ n \<and>
                evs = map (Ev_access (hd ?q)) acc @ unlinked b (take k ?q) @ map Ev_enq n \<and>
                (n = [] \<or> (n = [next_xfr_addr y] \<and> next_xfr_addr y1 = Suc (next_xfr_addr y) \<and>
                            rc (sbe y) = 0)))) \<or>
            (rc (sbe y1) \<noteq> 0 \<and> xfrs (sbe y1) = [] \<and>
             evs = map (Ev_access (hd ?q)) acc @ map Ev_flushed ?q)"
    unfolding step_shape_def by blast
  from c show ?thesis
  proof
    assume "rc (sbe y1) = rc (sbe y) \<and>
             (\<exists>k n b. xfrs (sbe y1) = drop k ?q @ n \<and>
                evs = map (Ev_access (hd ?q)) acc @ unlinked b (take k ?q) @ map Ev_enq n \<and>
                (n = [] \<or> (n = [next_xfr_addr y] \<and> next_xfr_addr y1 = Suc (next_xfr_addr y) \<and>
                            rc (sbe y) = 0)))"
    then obtain k n b where rc: "rc (sbe y1) = rc (sbe y)"
      and q1: "xfrs (sbe y1) = drop k ?q @ n"
      and ev: "evs = map (Ev_access (hd ?q)) acc @ unlinked b (take k ?q) @ map Ev_enq n"
      and n: "n = [] \<or> (n = [next_xfr_addr y] \<and> next_xfr_addr y1 = Suc (next_xfr_addr y) \<and>
                          rc (sbe y) = 0)"
      by blast
    have "foldl apply_ev ?q (unlinked b (take k ?q)) = drop k ?q"
      unfolding foldl_unlinked using d by (rule filter_take_distinct)
    with a rc q1 ev n show ?thesis
      by (intro exI [of _ acc] exI [of _ "unlinked b (take k ?q)"] exI [of _ k] exI [of _ n])
        simp
  next
    assume f: "rc (sbe y1) \<noteq> 0 \<and> xfrs (sbe y1) = [] \<and>
               evs = map (Ev_access (hd ?q)) acc @ map Ev_flushed ?q"
    have "foldl apply_ev ?q (map Ev_flushed ?q) = drop (length ?q) ?q"
      by (simp add: foldl_flushed)
    with a f show ?thesis
      by (intro exI [of _ acc] exI [of _ "map Ev_flushed ?q"] exI [of _ "length ?q"]
          exI [of _ "[]"]) simp
  qed
qed

lemma inv_queue_step:
  assumes inv: "inv_queue y" and shape: "step_shape y evs y1"
  shows "inv_queue y1"
proof -
  let ?q = "xfrs (sbe y)" and ?q1 = "xfrs (sbe y1)" and ?tr = "trace y"
  let ?h = "hd ?q"
  let ?L = "rc (sbe y1) \<noteq> 0"
  have p: "pending ?tr = ?q" and d: "distinct ?q"
    and lt: "list_all (\<lambda>x. x < next_xfr_addr y) ?q"
    and latch: "if rc (sbe y) \<noteq> 0 then ?q = [] else \<not> list_ex is_flushed ?tr"
    and fs: "fifo_served ?tr"
    and ids: "list_all (\<lambda>x. x < next_xfr_addr y) (enq_ids ?tr)" "distinct (enq_ids ?tr)"
    using inv by (simp_all add: inv_queue_def)
  have tr1: "trace y1 = rev evs @ ?tr" and mono: "next_xfr_addr y \<le> next_xfr_addr y1"
    using shape by (simp_all add: step_shape_def)
  from step_shape_events [OF shape d] obtain acc gone k n where
    ev: "evs = map (Ev_access ?h) acc @ gone @ map Ev_enq n"
    and acc: "?q = [] \<longrightarrow> acc = []"
    and q1: "?q1 = drop k ?q @ n"
    and g: "foldl apply_ev ?q gone = drop k ?q"
    and ge: "enq_ids gone = []" and ga: "list_all (\<lambda>e. \<not> is_access e) gone"
    and gf: "rc (sbe y1) = 0 \<longrightarrow> \<not> list_ex is_flushed gone"
    and n: "n = [] \<or> (n = [next_xfr_addr y] \<and> next_xfr_addr y1 = Suc (next_xfr_addr y) \<and>
                      rc (sbe y) = 0)"
    and rc1: "rc (sbe y1) = rc (sbe y) \<or> (?L \<and> ?q1 = [])"
    by blast
  have fresh: "set n \<inter> set ?q = {}"
    using n lt by (auto simp: list_all_iff)
  have fresh_ids: "set n \<inter> set (enq_ids ?tr) = {}"
    using n ids(1) by (auto simp: list_all_iff)
  have "pending (trace y1) = foldl apply_ev (pending ?tr) evs"
    unfolding tr1 by (rule pending_rev)
  also have "\<dots> = ?q1"
    unfolding p ev q1 by (simp add: g)
  finally have c1: "pending (trace y1) = ?q1" .
  have c2: "distinct ?q1"
    unfolding q1 using d n fresh by (auto dest: in_set_dropD)
  have "\<forall>x\<in>set (drop k ?q). x < next_xfr_addr y1"
    using lt mono by (fastforce simp: list_all_iff dest: in_set_dropD)
  then have c3: "list_all (\<lambda>x. x < next_xfr_addr y1) ?q1"
    unfolding q1 using n by (auto simp: list_all_iff)
  have c4: "if ?L then ?q1 = [] else \<not> list_ex is_flushed (trace y1)"
  proof (cases ?L)
    case True
    then show ?thesis
      using rc1 latch n q1 by auto
  next
    case False
    then have "rc (sbe y) = 0"
      using rc1 by auto
    then have "\<not> list_ex is_flushed ?tr"
      using latch by simp
    then show ?thesis
      using False gf unfolding tr1 ev by (simp add: list_ex_append)
  qed
  have hd: "acc \<noteq> [] \<longrightarrow> (case pending ?tr of [] \<Rightarrow> False | x # _ \<Rightarrow> x = ?h) \<and>
                         \<not> list_ex is_flushed ?tr"
  proof
    assume "acc \<noteq> []"
    then have ne: "?q \<noteq> []"
      using acc by auto
    then have "rc (sbe y) = 0"
      using latch by (auto split: if_splits)
    then show "(case pending ?tr of [] \<Rightarrow> False | x # _ \<Rightarrow> x = ?h) \<and> \<not> list_ex is_flushed ?tr"
      using latch ne p by (auto split: list.splits)
  qed
  have "trace y1 = (rev (map Ev_enq n) @ rev gone) @ map (Ev_access ?h) (rev acc) @ ?tr"
    unfolding tr1 ev by (simp add: rev_map)
  moreover have "list_all (\<lambda>e. \<not> is_access e) (rev (map Ev_enq n) @ rev gone)"
    using ga by (auto simp: list_all_iff)
  ultimately have "fifo_served (trace y1) = fifo_served (map (Ev_access ?h) (rev acc) @ ?tr)"
    by (simp only: fifo_served_noacc)
  then have c5: "fifo_served (trace y1)"
    using fs hd by (simp add: fifo_served_accs)
  have e1: "enq_ids (trace y1) = rev n @ enq_ids ?tr"
    unfolding tr1 ev by (simp add: ge)
  have "\<forall>x\<in>set (enq_ids ?tr). x < next_xfr_addr y1"
    using ids(1) mono by (fastforce simp: list_all_iff)
  then have c6: "list_all (\<lambda>x. x < next_xfr_addr y1) (enq_ids (trace y1))"
    unfolding e1 using n by (auto simp: list_all_iff)
  have c7: "distinct (enq_ids (trace y1))"
    unfolding e1 using ids(2) n fresh_ids by auto
  show ?thesis
    unfolding inv_queue_def using c1 c2 c3 c4 c5 c6 c7 by simp
qed

lemma inv_queue_init: "inv_queue (sys_init d)"
  by (simp add: inv_queue_def sys_init_def)

lemma reach_inv_queue: "reach P y \<Longrightarrow> inv_queue y"
proof (induction rule: reach.induct)
  case (reach_init d)
  show ?case by (rule inv_queue_init)
next
  case (reach_step y op y1)
  from sys_step_shape [OF reach_step.hyps(2)] obtain evs where "step_shape y evs y1"
    by blast
  with reach_step.IH show ?case
    by (rule inv_queue_step)
qed

lemma run_reach: "reach P y \<Longrightarrow> run P ops y = Some y1 \<Longrightarrow> reach P y1"
proof (induction ops arbitrary: y)
  case Nil
  then show ?case by simp
next
  case (Cons op ops)
  then obtain y2 where s: "sys_step P op y = Some y2" and r: "run P ops y2 = Some y1"
    by (auto split: option.splits)
  from Cons.prems(1) s have "reach P y2"
    by (rule reach_step)
  from Cons.IH [OF this r] show ?case .
qed










text \<open>The steps that record events, in terms of the functions without a record.\<close>

lemma tick_step:
  assumes "sys_step P (Op_tick jiffies) y = Some y1"
  shows "\<exists>evs s1. sbefifo_poll_timer_ev P jiffies (sbe y) = Some (evs, s1) \<and>
           sbefifo_poll_timer P jiffies (sbe y) = Some (accesses evs, s1) \<and>
           y1 = logged y evs s1"
proof -
  from assms obtain evs s1 where
    e: "sbefifo_poll_timer_ev P jiffies (sbe y) = Some (evs, s1)" and y1: "y1 = logged y evs s1"
    by (auto split: if_splits option.splits)
  from poll_timer_ev_erase [of P jiffies "sbe y"] e have
    "sbefifo_poll_timer P jiffies (sbe y) = Some (accesses evs, s1)"
    by simp
  with e y1 show ?thesis
    by blast
qed

lemma write_step:
  assumes "sys_step P (Op_write jiffies ok c user data len) y = Some y1"
  shows "\<exists>evs r s1. c \<in> set (handles y) \<and>
           sbefifo_write_common_enter_ev jiffies (kzalloc_at ok (next_xfr_addr y)) c user data
             len (sbe y) = Some (evs, r, s1) \<and>
           sbefifo_write_common_enter jiffies (kzalloc_at ok (next_xfr_addr y)) c user data len
             (sbe y) = Some (r, s1) \<and>
           y1 = (logged y evs s1)
                  \<lparr>sleeping := (case r of Inl _ \<Rightarrow> sleeping y | Inr w \<Rightarrow> Writer w # sleeping y),
                   next_xfr_addr := Suc (next_xfr_addr y)\<rparr>"
proof -
  from assms obtain evs r s1 where
    h: "c \<in> set (handles y)"
    and e: "sbefifo_write_common_enter_ev jiffies (kzalloc_at ok (next_xfr_addr y)) c user data
              len (sbe y) = Some (evs, r, s1)"
    and y1: "y1 = (logged y evs s1)
               \<lparr>sleeping := (case r of Inl _ \<Rightarrow> sleeping y | Inr w \<Rightarrow> Writer w # sleeping y),
                next_xfr_addr := Suc (next_xfr_addr y)\<rparr>"
    by (auto split: if_splits option.splits)
  from write_enter_ev_erase [of jiffies "kzalloc_at ok (next_xfr_addr y)" c user data len "sbe y"]
    e have
    "sbefifo_write_common_enter jiffies (kzalloc_at ok (next_xfr_addr y)) c user data len
       (sbe y) = Some (r, s1)"
    by simp
  with h e y1 show ?thesis
    by blast
qed

lemma remove_step:
  assumes "sys_step P Op_remove y = Some y1"
  shows "y1 = logged y (map Ev_flushed (xfrs (sbe y))) (sbefifo_remove (sbe y))"
  using assms by (simp add: sbefifo_remove_ev_def)

section \<open>Reference counts\<close>

text \<open>
  In every reachable state the reference count of a client is the number of its holders,
  and a client is allocated exactly as long as it has one. A client with an open handle
  is therefore never freed under a call that sleeps on it.
\<close>

lemma krefs_mod_timer [simp]: "krefs (mod_timer e s) = krefs s"
  by (simp add: krefs_def mod_timer_def fun_eq_iff)

lemma krefs_xfr_mem [simp]: "krefs (s\<lparr>xfr_mem := m\<rparr>) = krefs s"
  by (simp add: krefs_def fun_eq_iff)

lemma krefs_xfrs [simp]: "krefs (s\<lparr>xfrs := q\<rparr>) = krefs s"
  by (simp add: krefs_def fun_eq_iff)

lemma krefs_poll_timer [simp]: "krefs (s\<lparr>poll_timer := t\<rparr>) = krefs s"
  by (simp add: krefs_def fun_eq_iff)

lemma krefs_rc [simp]: "krefs (s\<lparr>rc := r\<rparr>) = krefs s"
  by (simp add: krefs_def fun_eq_iff)

lemma krefs_fsi_dev [simp]: "krefs (s\<lparr>fsi_dev := d\<rparr>) = krefs s"
  by (simp add: krefs_def fun_eq_iff)

lemma krefs_client_upd:
  "client_mem s c = Some cl \<Longrightarrow> kref cl1 = kref cl \<Longrightarrow>
   krefs (s\<lparr>client_mem := (client_mem s)(c \<mapsto> cl1)\<rparr>) = krefs s"
  by (auto simp: krefs_def fun_eq_iff)

lemma next_xfr_k: "sbefifo_next_xfr s = Some (nx, s1) \<Longrightarrow> krefs s1 = krefs s"
  using next_xfr_effect [of s nx s1] by (simp add: krefs_def fun_eq_iff)

lemma get_client_k:
  "sbefifo_get_client c s = Some s1 \<Longrightarrow>
   k_get c s s1"
  by (auto simp: sbefifo_get_client_def k_get_def krefs_def fun_eq_iff split: option.splits)

lemma release_xfrs_k: "release_xfrs jiffies l s = Some s1 \<Longrightarrow> client_mem s1 = client_mem s"
proof (induction l arbitrary: s)
  case Nil
  then show ?case by simp
next
  case (Cons x l)
  from Cons.prems obtain xfr where x: "xfr_mem s x = Some xfr"
    by (auto split: option.splits)
  show ?case
  proof (cases "xfr_complete xfr")
    case True
    with Cons.prems x have "release_xfrs jiffies l (s\<lparr>xfr_mem := (xfr_mem s)(x := None)\<rparr>) = Some s1"
      by simp
    from Cons.IH [OF this] show ?thesis
      by simp
  next
    case False
    with Cons.prems x have
      "release_xfrs jiffies l
         (mod_timer jiffies (s\<lparr>xfr_mem := (xfr_mem s)(x \<mapsto> xfr\<lparr>xfr_cancel := True\<rparr>)\<rparr>)) = Some s1"
      by simp
    from Cons.IH [OF this] show ?thesis
      by (simp add: mod_timer_def)
  qed
qed

lemma client_release_k:
  "sbefifo_client_release jiffies c s = Some s1 \<Longrightarrow> krefs s1 = (krefs s)(c := None)"
  by (auto simp: sbefifo_client_release_def krefs_def fun_eq_iff dest!: release_xfrs_k
      split: option.splits if_splits)

lemma put_client_k:
  assumes "sbefifo_put_client jiffies c s = Some s1"
  shows "k_put c s s1"
proof -
  from assms obtain cl where cl: "client_mem s c = Some cl" and pos: "kref cl \<noteq> 0"
    by (auto simp: sbefifo_put_client_def split: option.splits if_splits)
  then obtain k where k: "kref cl = Suc k"
    by (cases "kref cl") simp_all
  show ?thesis
  proof (cases "k = 0")
    case True
    with assms cl k have "sbefifo_client_release jiffies c s = Some s1"
      by (simp add: sbefifo_put_client_def)
    from client_release_k [OF this] show ?thesis
      using cl k True by (simp add: k_put_def krefs_def)
  next
    case False
    with assms cl k have "s1 = s\<lparr>client_mem := (client_mem s)(c \<mapsto> cl\<lparr>kref := k\<rparr>)\<rparr>"
      by (simp add: sbefifo_put_client_def)
    then show ?thesis
      using cl k False by (auto simp: k_put_def krefs_def fun_eq_iff)
  qed
qed

lemma call_out_k: "call_out jiffies c r s = Some (r1, s1) \<Longrightarrow> r1 = r \<and> k_put c s s1"
  by (auto simp: call_out_def dest: put_client_k)

lemma write_cancel_k:
  assumes "write_cancel jiffies w ret s = Some (r1, s1)"
  shows "k_put (w_client w) s s1"
proof -
  from assms obtain xfr where
    "call_out jiffies (w_client w) ret
       (mod_timer jiffies (s\<lparr>xfr_mem := (xfr_mem s)(w_xfr w \<mapsto> xfr\<lparr>xfr_cancel := True\<rparr>)\<rparr>)) =
     Some (r1, s1)"
    by (auto simp: write_cancel_def split: option.splits)
  from call_out_k [OF this] show ?thesis
    by (simp add: k_put_def)
qed

lemma enq_xfr_k: "sbefifo_enq_xfr kz c s = Some (r, s1) \<Longrightarrow> krefs s1 = krefs s"
  by (auto simp: sbefifo_enq_xfr_def krefs_def fun_eq_iff split: if_splits option.splits)

lemma new_client_k:
  "sbefifo_new_client kz nb s = (co, s1) \<Longrightarrow>
   co = kz \<and> (case kz of None \<Rightarrow> s1 = s | Some c \<Rightarrow> krefs s1 = (krefs s)(c \<mapsto> 1))"
  by (auto simp: sbefifo_new_client_def krefs_def fun_eq_iff split: option.splits)

lemma open_k:
  "sbefifo_open kz nb s = ((r, co), s1) \<Longrightarrow>
   (case co of None \<Rightarrow> s1 = s | Some c \<Rightarrow> kz = Some c \<and> krefs s1 = (krefs s)(c \<mapsto> 1))"
  by (auto simp: sbefifo_open_def dest!: new_client_k
      split: if_splits prod.splits option.splits)

lemma drv_open_k:
  "sbefifo_drv_open kz nb s = (co, s1) \<Longrightarrow>
   (case co of None \<Rightarrow> s1 = s | Some c \<Rightarrow> kz = Some c \<and> krefs s1 = (krefs s)(c \<mapsto> 1))"
  by (auto simp: sbefifo_drv_open_def dest!: new_client_k split: option.splits)

lemma release_k: "sbefifo_release jiffies c s = Some (r, s1) \<Longrightarrow> k_put c s s1"
  by (auto simp: sbefifo_release_def dest: put_client_k)

lemma read_enter_k:
  "sbefifo_read_common_enter c uf len s = Some (r, s1) \<Longrightarrow>
   (case r of
      Inl e \<Rightarrow> s1 = s
    | Inr rd \<Rightarrow> rd = \<lparr>r_client = c, r_user_fault = uf, r_len = len\<rparr> \<and> k_get c s s1)"
  by (auto simp: sbefifo_read_common_enter_def dest: get_client_k
      split: if_splits option.splits)

lemma read_intr_k:
  "sbefifo_read_common_intr jiffies rd s = Some (r, s1) \<Longrightarrow> k_put (r_client rd) s s1"
  by (auto simp: sbefifo_read_common_intr_def dest: call_out_k)

lemma write_intr_k:
  "sbefifo_write_common_intr jiffies w s = Some (r, s1) \<Longrightarrow> k_put (w_client w) s s1"
  by (auto simp: sbefifo_write_common_intr_def dest: write_cancel_k)

lemma tick_fatal_k [simp]: "krefs (tick_fatal ret s) = krefs s"
  by (simp add: tick_fatal_def)

lemma remove_k: "krefs (sbefifo_remove s) = krefs s"
  by (simp add: sbefifo_remove_def)

lemma tick_store_k [simp]: "krefs (tick_store s x xfr rb wb d) = krefs s"
  by (auto simp: tick_store_def krefs_def fun_eq_iff split: option.splits)

lemma tick_finish_k: "tick_finish P jiffies x ex s = Some s1 \<Longrightarrow> krefs s1 = krefs s"
  by (cases ex)
    (auto simp: tick_finish_def tick_complete_def dest!: next_xfr_k
      split: option.splits if_splits)

lemma poll_timer_k: "sbefifo_poll_timer P jiffies s = Some (acc, s1) \<Longrightarrow> krefs s1 = krefs s"
  by (auto simp: sbefifo_poll_timer_def Let_def dest!: tick_finish_k
      split: option.splits list.splits)

lemma k_put_cong: "krefs s' = krefs s \<Longrightarrow> k_put c s' s1 \<Longrightarrow> k_put c s s1"
  by (simp add: k_put_def)

lemma k_get_put:
  assumes "k_get c s s'" and "k_put c s' s1" and "krefs s c \<noteq> Some 0"
  shows "krefs s1 = krefs s"
proof -
  from assms(1) obtain k where k: "krefs s c = Some k" "krefs s' = (krefs s)(c \<mapsto> Suc k)"
    by (auto simp: k_get_def)
  with assms(3) have "k \<noteq> 0"
    by simp
  with assms(2) k show ?thesis
    by (auto simp: k_put_def fun_eq_iff)
qed

lemma write_enter_k:
  assumes "sbefifo_write_common_enter jiffies kz c user data len s = Some (r, s1)"
    and "krefs s c \<noteq> Some 0"
  shows "case r of Inl e \<Rightarrow> krefs s1 = krefs s
         | Inr w \<Rightarrow> w_client w = c \<and> k_get c s s1"
proof (cases "push_bit 2 (drop_bit 2 len) \<noteq> len \<or> len = 0")
  case True
  with assms show ?thesis
    by (auto simp: sbefifo_write_common_enter_def split: if_splits)
next
  case False
  with assms obtain sa cl nx sb where
    g: "sbefifo_get_client c s = Some sa" and cl: "client_mem sa c = Some cl"
    and n: "sbefifo_next_xfr sa = Some (nx, sb)"
    by (auto simp: sbefifo_write_common_enter_def Let_def split: option.splits)
  have kg: "k_get c s sa"
    using g by (rule get_client_k)
  have kb: "krefs sb = krefs sa"
    using n by (rule next_xfr_k)
  show ?thesis
  proof (cases "o_nonblock cl \<and> nx \<noteq> None \<and> sbefifo_buf_nbwriteable (wbuf cl) < len")
    case True
    with assms False g cl n have
      c: "call_out jiffies c (Inl (- EAGAIN) :: int + wr_call) sb = Some (r, s1)"
      by (simp add: sbefifo_write_common_enter_def Let_def)
    from call_out_k [OF c] have "r = Inl (- EAGAIN)" "k_put c sa s1"
      using kb by (auto intro: k_put_cong)
    with k_get_put [OF kg _ assms(2)] show ?thesis
      by simp
  next
    case nb: False
    with assms False g cl n obtain r3 s3 where
      e: "sbefifo_enq_xfr kz c sb = Some (r3, s3)"
      by (auto simp: sbefifo_write_common_enter_def Let_def split: option.splits)
    have k3: "krefs s3 = krefs sa"
      using enq_xfr_k [OF e] kb by simp
    show ?thesis
    proof (cases r3)
      case (Inl err)
      with assms False g cl n nb e have
        c: "call_out jiffies c (Inl err :: int + wr_call) s3 = Some (r, s1)"
        by (auto simp: sbefifo_write_common_enter_def Let_def split: if_splits)
      from call_out_k [OF c] have "r = Inl err" "k_put c sa s1"
        using k3 by (auto intro: k_put_cong)
      with k_get_put [OF kg _ assms(2)] show ?thesis
        by simp
    next
      case (Inr x)
      with assms False g cl n nb e have
        "r = Inr \<lparr>w_client = c, w_xfr = x, w_user = user, w_data = data, w_len = len,
                  w_ret = 0\<rparr> \<and> s1 = s3"
        by (auto simp: sbefifo_write_common_enter_def Let_def split: if_splits)
      with kg k3 show ?thesis
        by (simp add: k_get_def)
    qed
  qed
qed

lemma write_iter_k:
  assumes "sbefifo_write_common_iter jiffies w s = Some (r, s1)"
  shows "case r of Inl e \<Rightarrow> k_put (w_client w) s s1
         | Inr w1 \<Rightarrow> krefs s1 = krefs s \<and> w_client w1 = w_client w \<and> w_xfr w1 = w_xfr w"
proof -
  from assms obtain ready n0 cl where
    rdy: "sbefifo_write_ready s (w_xfr w) (w_client w) = Some (ready, n0)"
    and cl: "client_mem s (w_client w) = Some cl"
    by (auto simp: sbefifo_write_common_iter_def split: option.splits)
  show ?thesis
  proof (cases "rc s \<noteq> 0")
    case True
    let ?s = "s\<lparr>client_mem := (client_mem s)(w_client w \<mapsto> cl\<lparr>client_xfrs := []\<rparr>)\<rparr>"
    from True assms rdy cl have
      c: "call_out jiffies (w_client w) (Inl (rc s) :: int + wr_call) ?s = Some (r, s1)"
      by (simp add: sbefifo_write_common_iter_def)
    have "krefs ?s = krefs s"
      using cl by (intro krefs_client_upd) simp_all
    with call_out_k [OF c] show ?thesis
      by (auto intro: k_put_cong)
  next
    case False
    let ?n = "min n0 (w_len w)"
    let ?k = "unat (drop_bit 2 ?n)"
    show ?thesis
    proof (cases "length (w_data w) < ?k")
      case True
      with assms rdy cl False obtain r2 where
        "write_cancel jiffies w (- EFAULT) s = Some (r2, s1)" "r = Inl r2"
        by (auto simp: sbefifo_write_common_iter_def Let_def split: if_splits)
      with write_cancel_k show ?thesis
        by fastforce
    next
      case short: False
      with assms rdy cl False obtain xfr where
        x: "xfr_mem s (w_xfr w) = Some xfr" and fit: "\<not> length (buf (wbuf cl)) < wpos (wbuf cl) + ?k"
        by (auto simp: sbefifo_write_common_iter_def Let_def split: if_splits option.splits)
      let ?wb1 = "(wbuf cl)\<lparr>buf := take (wpos (wbuf cl)) (buf (wbuf cl)) @ take ?k (w_data w) @
                                  drop (wpos (wbuf cl) + ?k) (buf (wbuf cl))\<rparr>"
      let ?s1 = "mod_timer jiffies
                   (s\<lparr>client_mem := (client_mem s)(w_client w \<mapsto>
                          cl\<lparr>wbuf := snd (sbefifo_buf_wrotenb ?wb1 ?n)\<rparr>),
                      xfr_mem := (xfr_mem s)(w_xfr w \<mapsto>
                          (if w_len w - ?n = 0 then xfr\<lparr>xfr_write_done := True\<rparr> else xfr))\<rparr>)"
      have k1: "krefs ?s1 = krefs s"
        using cl by (auto simp: krefs_def mod_timer_def fun_eq_iff)
      show ?thesis
      proof (cases "w_len w - ?n \<noteq> 0")
        case True
        with assms rdy cl False short x fit have
          "s1 = ?s1" "r = Inr (w\<lparr>w_data := drop ?k (w_data w), w_len := w_len w - ?n,
                                   w_ret := w_ret w + sint ?n\<rparr>)"
          by (simp_all add: sbefifo_write_common_iter_def Let_def)
        with k1 show ?thesis by simp
      next
        case last: False
        with assms rdy cl False short x fit have
          c: "call_out jiffies (w_client w) (Inl (w_ret w + sint ?n) :: int + wr_call) ?s1 = Some (r, s1)"
          by (simp add: sbefifo_write_common_iter_def Let_def)
        from call_out_k [OF c] have "r = Inl (w_ret w + sint ?n)" "k_put (w_client w) ?s1 s1"
          by simp_all
        with k_put_cong [OF k1] show ?thesis
          by simp
      qed
    qed
  qed
qed

lemma k_put_client_upd [simp]:
  "client_mem s c = Some cl \<Longrightarrow> kref cl1 = kref cl \<Longrightarrow>
   k_put c' (s\<lparr>client_mem := (client_mem s)(c \<mapsto> cl1)\<rparr>) s1 = k_put c' s s1"
  by (simp add: k_put_def krefs_client_upd)

lemma k_put_client_upd2 [simp]:
  "client_mem s c = Some cl \<Longrightarrow> kref cl1 = kref cl \<Longrightarrow>
   k_put c' (s\<lparr>client_mem := (client_mem s)(c \<mapsto> cl1), xfr_mem := m\<rparr>) s1 = k_put c' s s1"
  by (simp add: k_put_def krefs_client_upd)

lemma k_put_mod_timer [simp]: "k_put c (mod_timer e s) s1 = k_put c s s1"
  by (simp add: k_put_def)

lemma read_body_k:
  "sbefifo_read_common_body jiffies past rd s = Some (r, s1) \<Longrightarrow> k_put (r_client rd) s s1"
  by (auto simp: sbefifo_read_common_body_def call_out_def Let_def
      dest!: put_client_k split: if_splits option.splits prod.splits list.splits)

lemma holders_of_handle:
  "holders_of (c # hs) sl = (holders_of hs sl)(c := Suc (holders_of hs sl c))"
  by (auto simp: holders_of_def fun_eq_iff)

lemma holders_of_sleeper:
  "holders_of hs (s # sl) =
   (holders_of hs sl)(sleeper_client s := Suc (holders_of hs sl (sleeper_client s)))"
  by (auto simp: holders_of_def fun_eq_iff)

lemma count_list_remove1:
  "c \<in> set hs \<Longrightarrow> count_list (remove1 c hs) c' = (if c' = c then count_list hs c - 1 else count_list hs c')"
  by (induction hs) auto

lemma count_list_pos: "c \<in> set hs \<Longrightarrow> 0 < count_list hs c"
  by (induction hs) auto

lemma filter_remove1_length:
  "s \<in> set sl \<Longrightarrow>
   length (filter p (remove1 s sl)) = (if p s then length (filter p sl) - 1 else length (filter p sl))"
proof (induction sl)
  case Nil
  then show ?case by simp
next
  case (Cons a sl)
  show ?case
  proof (cases "a = s")
    case True
    then show ?thesis by simp
  next
    case False
    with Cons.prems have in_sl: "s \<in> set sl"
      by simp
    then have "p s \<Longrightarrow> 0 < length (filter p sl)"
      by (auto simp: filter_empty_conv)
    with Cons.IH [OF in_sl] False show ?thesis
      by auto
  qed
qed

lemma filter_pos: "s \<in> set sl \<Longrightarrow> p s \<Longrightarrow> 0 < length (filter p sl)"
  by (auto simp: filter_empty_conv)

lemma sleepers_pos:
  "s \<in> set sl \<Longrightarrow> 0 < length (filter (\<lambda>x. sleeper_client x = sleeper_client s) sl)"
  by (rule filter_pos) simp_all

lemma holders_of_close:
  assumes "c \<in> set hs"
  shows "holders_of (remove1 c hs) sl = (holders_of hs sl)(c := holders_of hs sl c - 1)"
  using assms count_list_pos [OF assms]
  by (auto simp: holders_of_def fun_eq_iff count_list_remove1)

lemma holders_of_wake:
  assumes "s \<in> set sl"
  shows "holders_of hs (remove1 s sl) =
         (holders_of hs sl)(sleeper_client s := holders_of hs sl (sleeper_client s) - 1)"
proof -
  have "0 < length (filter (\<lambda>x. sleeper_client x = sleeper_client s) sl)"
    using assms by (rule sleepers_pos)
  then show ?thesis
    using assms by (auto simp: holders_of_def fun_eq_iff filter_remove1_length simp del: length_greater_0_conv)
qed

lemma holders_of_handle_pos: "c \<in> set hs \<Longrightarrow> 0 < holders_of hs sl c"
  by (simp add: holders_of_def count_list_pos)

lemma holders_of_sleeper_pos: "s \<in> set sl \<Longrightarrow> 0 < holders_of hs sl (sleeper_client s)"
  using sleepers_pos [of s sl] by (simp add: holders_of_def del: length_greater_0_conv)

lemma holders_of_again:
  assumes "s \<in> set sl" and "sleeper_client s1 = sleeper_client s"
  shows "holders_of hs (s1 # remove1 s sl) = holders_of hs sl"
  using holders_of_sleeper_pos [OF assms(1), of hs] assms(2)
  by (auto simp: holders_of_sleeper holders_of_wake [OF assms(1)] fun_eq_iff)

text \<open>How a step with a given effect on the reference counts keeps the invariant.\<close>

lemma refs_same:
  assumes "inv_refs y" and "krefs (sbe y1) = krefs (sbe y)" and "holders y1 = holders y"
    and "next_client_addr y \<le> next_client_addr y1"
  shows "inv_refs y1"
  using assms by (auto simp: inv_refs_def)

lemma refs_get:
  assumes "inv_refs y" and "k_get c (sbe y) (sbe y1)"
    and "holders y1 = (holders y)(c := Suc (holders y c))"
    and "next_client_addr y1 = next_client_addr y"
  shows "inv_refs y1"
proof -
  from assms(2) obtain k where
    k: "krefs (sbe y) c = Some k" "krefs (sbe y1) = (krefs (sbe y))(c \<mapsto> Suc k)"
    by (auto simp: k_get_def)
  with assms(1) have h: "holders y c = k" "0 < k"
    by (auto simp: inv_refs_def split: if_splits)
  with assms(1) have "c < next_client_addr y"
    by (auto simp: inv_refs_def intro: leI)
  with assms k h show ?thesis
    by (auto simp: inv_refs_def)
qed

lemma refs_put:
  assumes "inv_refs y" and "k_put c (sbe y) (sbe y1)"
    and "holders y1 = (holders y)(c := holders y c - 1)"
    and "next_client_addr y1 = next_client_addr y"
  shows "inv_refs y1"
proof -
  from assms(2) obtain k where
    k: "krefs (sbe y) c = Some (Suc k)"
       "krefs (sbe y1) = (krefs (sbe y))(c := if k = 0 then None else Some k)"
    by (auto simp: k_put_def)
  with assms(1) have h: "holders y c = Suc k"
    by (auto simp: inv_refs_def split: if_splits)
  with assms k show ?thesis
    by (auto simp: inv_refs_def)
qed

lemma refs_new:
  assumes "inv_refs y" and "krefs (sbe y1) = (krefs (sbe y))(next_client_addr y \<mapsto> 1)"
    and "holders y1 = (holders y)(next_client_addr y := Suc (holders y (next_client_addr y)))"
    and "next_client_addr y1 = Suc (next_client_addr y)"
  shows "inv_refs y1"
proof -
  from assms(1) have "holders y (next_client_addr y) = 0"
    by (simp add: inv_refs_def)
  with assms show ?thesis
    by (auto simp: inv_refs_def)
qed

lemma holders_logged [simp]: "holders (logged y evs s1) = holders y"
  by (simp add: holders_def)

lemma inv_refs_handle:
  "inv_refs y \<Longrightarrow> c \<in> set (handles y) \<Longrightarrow> \<exists>k. krefs (sbe y) c = Some (Suc k)"
  using holders_of_handle_pos [of c "handles y" "sleeping y"]
  by (cases "holders y c") (auto simp: inv_refs_def holders_def)

lemma refs_op_open:
  assumes "sys_step P (Op_open ok nb) y = Some y1" and inv: "inv_refs y"
  shows "inv_refs y1"
proof -
  obtain r co s1 where
    o: "sbefifo_open (kzalloc_at ok (next_client_addr y)) nb (sbe y) = ((r, co), s1)"
    by (metis surj_pair)
  from assms(1) o have y1:
    "y1 = (logged y [] s1)\<lparr>handles := (case co of None \<Rightarrow> handles y | Some c \<Rightarrow> c # handles y),
                             next_client_addr := Suc (next_client_addr y)\<rparr>"
    by simp
  show ?thesis
  proof (cases co)
    case None
    with open_k [OF o] y1 have "sbe y1 = sbe y" "holders y1 = holders y"
      "next_client_addr y \<le> next_client_addr y1"
      by (simp_all add: holders_def)
    with inv show ?thesis
      by - (rule refs_same [of y], simp_all)
  next
    case (Some c)
    with open_k [OF o] have "c = next_client_addr y" "krefs s1 = (krefs (sbe y))(c \<mapsto> 1)"
      by (auto simp: kzalloc_at_def split: if_splits)
    with y1 Some inv show ?thesis
      by - (rule refs_new [of y], simp_all add: holders_def holders_of_handle)
  qed
qed

lemma refs_op_drv_open:
  assumes "sys_step P (Op_drv_open ok nb) y = Some y1" and inv: "inv_refs y"
  shows "inv_refs y1"
proof -
  obtain co s1 where
    o: "sbefifo_drv_open (kzalloc_at ok (next_client_addr y)) nb (sbe y) = (co, s1)"
    by (metis surj_pair)
  from assms(1) o have y1:
    "y1 = (logged y [] s1)\<lparr>handles := (case co of None \<Rightarrow> handles y | Some c \<Rightarrow> c # handles y),
                             next_client_addr := Suc (next_client_addr y)\<rparr>"
    by simp
  show ?thesis
  proof (cases co)
    case None
    with drv_open_k [OF o] y1 have "sbe y1 = sbe y" "holders y1 = holders y"
      "next_client_addr y \<le> next_client_addr y1"
      by (simp_all add: holders_def)
    with inv show ?thesis
      by - (rule refs_same [of y], simp_all)
  next
    case (Some c)
    with drv_open_k [OF o] have "c = next_client_addr y" "krefs s1 = (krefs (sbe y))(c \<mapsto> 1)"
      by (auto simp: kzalloc_at_def split: if_splits)
    with y1 Some inv show ?thesis
      by - (rule refs_new [of y], simp_all add: holders_def holders_of_handle)
  qed
qed

lemma refs_op_write:
  assumes "sys_step P (Op_write jiffies ok c user data len) y = Some y1" and inv: "inv_refs y"
  shows "inv_refs y1"
proof -
  from write_step [OF assms(1)] obtain evs r s1 where
    h: "c \<in> set (handles y)"
    and e: "sbefifo_write_common_enter jiffies (kzalloc_at ok (next_xfr_addr y)) c user data len
              (sbe y) = Some (r, s1)"
    and y1: "y1 = (logged y evs s1)
               \<lparr>sleeping := (case r of Inl _ \<Rightarrow> sleeping y | Inr w \<Rightarrow> Writer w # sleeping y),
                next_xfr_addr := Suc (next_xfr_addr y)\<rparr>"
    by blast
  from inv_refs_handle [OF inv h] have "krefs (sbe y) c \<noteq> Some 0"
    by auto
  note k = write_enter_k [OF e this]
  show ?thesis
  proof (cases r)
    case (Inl err)
    with k y1 inv show ?thesis
      by - (rule refs_same [of y], simp_all add: holders_def)
  next
    case (Inr w)
    with k y1 inv show ?thesis
      by - (rule refs_get [of y c], simp_all add: holders_def holders_of_sleeper)
  qed
qed

lemma refs_op_write_wake:
  assumes "sys_step P (Op_write_wake jiffies w) y = Some y1" and inv: "inv_refs y"
  shows "inv_refs y1"
proof -
  from assms(1) obtain r s1 where
    sl: "Writer w \<in> set (sleeping y)"
    and e: "sbefifo_write_common_iter jiffies w (sbe y) = Some (r, s1)"
    and y1: "y1 = (logged y [] s1)
               \<lparr>sleeping := (case r of Inl _ \<Rightarrow> remove1 (Writer w) (sleeping y)
                              | Inr w1 \<Rightarrow> Writer w1 # remove1 (Writer w) (sleeping y))\<rparr>"
    by (auto split: if_splits option.splits)
  note k = write_iter_k [OF e]
  show ?thesis
  proof (cases r)
    case (Inl err)
    with k y1 inv sl show ?thesis
      by - (rule refs_put [of y "w_client w"], simp_all add: holders_def holders_of_wake [OF sl])
  next
    case (Inr w1)
    with k y1 inv sl show ?thesis
      by - (rule refs_same [of y], simp_all add: holders_def holders_of_again [OF sl])
  qed
qed

lemma refs_op_write_signal:
  assumes "sys_step P (Op_write_signal jiffies w) y = Some y1" and inv: "inv_refs y"
  shows "inv_refs y1"
proof -
  from assms(1) obtain r s1 where
    sl: "Writer w \<in> set (sleeping y)"
    and e: "sbefifo_write_common_intr jiffies w (sbe y) = Some (r, s1)"
    and y1: "y1 = (logged y [] s1)\<lparr>sleeping := remove1 (Writer w) (sleeping y)\<rparr>"
    by (auto split: if_splits option.splits)
  from write_intr_k [OF e] y1 inv sl show ?thesis
    by - (rule refs_put [of y "w_client w"], simp_all add: holders_def holders_of_wake [OF sl])
qed

lemma refs_op_read:
  assumes "sys_step P (Op_read c uf len) y = Some y1" and inv: "inv_refs y"
  shows "inv_refs y1"
proof -
  from assms(1) obtain r s1 where
    h: "c \<in> set (handles y)"
    and e: "sbefifo_read_common_enter c uf len (sbe y) = Some (r, s1)"
    and y1: "y1 = (logged y [] s1)
               \<lparr>sleeping := (case r of Inl _ \<Rightarrow> sleeping y | Inr rd \<Rightarrow> Reader rd # sleeping y)\<rparr>"
    by (auto split: if_splits option.splits)
  note k = read_enter_k [OF e]
  show ?thesis
  proof (cases r)
    case (Inl err)
    with k y1 inv show ?thesis
      by - (rule refs_same [of y], simp_all add: holders_def)
  next
    case (Inr rd)
    with k y1 inv show ?thesis
      by - (rule refs_get [of y c], simp_all add: holders_def holders_of_sleeper)
  qed
qed

lemma refs_op_read_wake:
  assumes "sys_step P (Op_read_wake jiffies past rd) y = Some y1" and inv: "inv_refs y"
  shows "inv_refs y1"
proof -
  from assms(1) obtain r s1 where
    sl: "Reader rd \<in> set (sleeping y)"
    and e: "sbefifo_read_common_body jiffies past rd (sbe y) = Some (r, s1)"
    and y1: "y1 = (logged y [] s1)\<lparr>sleeping := remove1 (Reader rd) (sleeping y)\<rparr>"
    by (auto split: if_splits option.splits)
  from read_body_k [OF e] y1 inv sl show ?thesis
    by - (rule refs_put [of y "r_client rd"], simp_all add: holders_def holders_of_wake [OF sl])
qed

lemma refs_op_read_signal:
  assumes "sys_step P (Op_read_signal jiffies rd) y = Some y1" and inv: "inv_refs y"
  shows "inv_refs y1"
proof -
  from assms(1) obtain r s1 where
    sl: "Reader rd \<in> set (sleeping y)"
    and e: "sbefifo_read_common_intr jiffies rd (sbe y) = Some (r, s1)"
    and y1: "y1 = (logged y [] s1)\<lparr>sleeping := remove1 (Reader rd) (sleeping y)\<rparr>"
    by (auto split: if_splits option.splits)
  from read_intr_k [OF e] y1 inv sl show ?thesis
    by - (rule refs_put [of y "r_client rd"], simp_all add: holders_def holders_of_wake [OF sl])
qed

lemma refs_op_release:
  assumes "sys_step P (Op_release jiffies c) y = Some y1" and inv: "inv_refs y"
  shows "inv_refs y1"
proof -
  from assms(1) obtain r s1 where
    h: "c \<in> set (handles y)"
    and e: "sbefifo_release jiffies c (sbe y) = Some (r, s1)"
    and y1: "y1 = (logged y [] s1)\<lparr>handles := remove1 c (handles y)\<rparr>"
    by (auto split: if_splits option.splits)
  from release_k [OF e] y1 inv h show ?thesis
    by - (rule refs_put [of y c], simp_all add: holders_def holders_of_close [OF h])
qed

lemma refs_op_tick:
  assumes "sys_step P (Op_tick jiffies) y = Some y1" and inv: "inv_refs y"
  shows "inv_refs y1"
proof -
  from tick_step [OF assms(1)] obtain evs s1 where
    e: "sbefifo_poll_timer P jiffies (sbe y) = Some (accesses evs, s1)"
    and y1: "y1 = logged y evs s1"
    by blast
  from poll_timer_k [OF e] y1 inv show ?thesis
    by - (rule refs_same [of y], simp_all)
qed

lemma refs_op_remove:
  assumes "sys_step P Op_remove y = Some y1" and inv: "inv_refs y"
  shows "inv_refs y1"
proof -
  from assms(1) have "y1 = logged y (map Ev_flushed (xfrs (sbe y))) (sbefifo_remove (sbe y))"
    by (rule remove_step)
  with inv show ?thesis
    by - (rule refs_same [of y], simp_all add: remove_k)
qed

lemma inv_refs_step:
  assumes "sys_step P op y = Some y1" and "inv_refs y"
  shows "inv_refs y1"
  using assms
  by (cases op)
    (auto intro: refs_op_open refs_op_drv_open refs_op_write refs_op_write_wake refs_op_write_signal refs_op_read refs_op_read_wake refs_op_read_signal refs_op_release refs_op_tick refs_op_remove)

lemma inv_refs_init: "inv_refs (sys_init d)"
  by (simp add: inv_refs_def sys_init_def holders_def holders_of_def krefs_def)

lemma reach_inv_refs: "reach P y \<Longrightarrow> inv_refs y"
  by (induction rule: reach.induct) (auto intro: inv_refs_init inv_refs_step)

section \<open>The fatal latch\<close>

lemma latched_write:
  assumes live: "client_mem s c = Some cl" and ref: "0 < kref cl"
    and latched: "rc s \<noteq> 0" and empty: "xfrs s = []"
    and len: "push_bit 2 (drop_bit 2 len) = len" "len \<noteq> 0"
  shows "sbefifo_write_common_enter jiffies kz c user data len s = Some (Inl (rc s), s)"
proof -
  let ?s1 = "s\<lparr>client_mem := (client_mem s)(c \<mapsto> cl\<lparr>kref := kref cl + 1\<rparr>)\<rparr>"
  have get: "sbefifo_get_client c s = Some ?s1"
    using live by (simp add: sbefifo_get_client_def)
  have "?s1\<lparr>xfrs := [], xfr_mem := xfr_mem s\<rparr> = ?s1"
    using empty by simp
  then have nx: "sbefifo_next_xfr ?s1 = Some (None, ?s1)"
    using empty by (simp add: sbefifo_next_xfr_def)
  have enq: "sbefifo_enq_xfr kz c ?s1 = Some (Inl (rc s), ?s1)"
    using latched by (simp add: sbefifo_enq_xfr_def)
  have idem: "(client_mem s)(c \<mapsto> cl) = client_mem s"
    using live by (simp add: fun_upd_idem)
  have put: "sbefifo_put_client jiffies c ?s1 = Some s"
    using ref by (simp add: sbefifo_put_client_def idem)
  show ?thesis
    using len get nx enq put by (simp add: sbefifo_write_common_enter_def call_out_def)
qed

lemma latched_read:
  assumes live: "client_mem s c = Some cl" and ref: "0 < kref cl"
    and latched: "rc s \<noteq> 0" and blk: "\<not> o_nonblock cl"
    and len: "push_bit 2 (drop_bit 2 len) = len"
  shows "\<exists>s1 n.
           sbefifo_read_common_enter c uf len s =
             Some (Inr \<lparr>r_client = c, r_user_fault = uf, r_len = len\<rparr>, s1) \<and>
           sbefifo_read_ready s1 c = Some (True, n, rc s) \<and>
           sbefifo_read_common_body jiffies past \<lparr>r_client = c, r_user_fault = uf, r_len = len\<rparr> s1 =
             Some ((rc s, []), s\<lparr>client_mem := (client_mem s)(c \<mapsto> cl\<lparr>client_xfrs := []\<rparr>)\<rparr>)"
proof -
  let ?cl1 = "cl\<lparr>kref := kref cl + 1\<rparr>"
  let ?s1 = "s\<lparr>client_mem := (client_mem s)(c \<mapsto> ?cl1)\<rparr>"
  let ?s2 = "?s1\<lparr>client_mem := (client_mem ?s1)(c \<mapsto> ?cl1\<lparr>client_xfrs := []\<rparr>)\<rparr>"
  have enter: "sbefifo_read_common_enter c uf len s =
                 Some (Inr \<lparr>r_client = c, r_user_fault = uf, r_len = len\<rparr>, ?s1)"
    using live blk len by (simp add: sbefifo_read_common_enter_def sbefifo_get_client_def)
  have ready: "sbefifo_read_ready ?s1 c = Some (True, sbefifo_buf_nbreadable (rbuf cl), rc s)"
    using latched by (simp add: sbefifo_read_ready_def)
  have put: "sbefifo_put_client jiffies c ?s2 =
               Some (s\<lparr>client_mem := (client_mem s)(c \<mapsto> cl\<lparr>client_xfrs := []\<rparr>)\<rparr>)"
    using ref by (simp add: sbefifo_put_client_def)
  have "sbefifo_read_common_body jiffies past \<lparr>r_client = c, r_user_fault = uf, r_len = len\<rparr> ?s1 =
          Some ((rc s, []), s\<lparr>client_mem := (client_mem s)(c \<mapsto> cl\<lparr>client_xfrs := []\<rparr>)\<rparr>)"
    using latched ready put by (simp add: sbefifo_read_common_body_def call_out_def)
  with enter ready show ?thesis
    by blast
qed

lemma sys_step_rc:
  assumes "sys_step P op y = Some y1" and "xfrs (sbe y) = []"
  shows "if op = Op_remove then rc (sbe y1) = - ENODEV else rc (sbe y1) = rc (sbe y)"
proof (cases op)
  case (Op_open ok nb)
  with assms obtain r s1 where
    "sbefifo_open (kzalloc_at ok (next_client_addr y)) nb (sbe y) = (r, s1)" "sbe y1 = s1"
    by (auto split: prod.splits)
  with Op_open show ?thesis
    by (auto dest: open_q simp: q_same_def)
next
  case (Op_drv_open ok nb)
  with assms obtain r s1 where
    "sbefifo_drv_open (kzalloc_at ok (next_client_addr y)) nb (sbe y) = (r, s1)" "sbe y1 = s1"
    by (auto split: prod.splits)
  with Op_drv_open show ?thesis
    by (auto dest: drv_open_q simp: q_same_def)
next
  case (Op_write jiffies ok c user data len)
  with write_step [of P jiffies ok c user data len y y1] assms obtain r s1 where
    e: "sbefifo_write_common_enter jiffies (kzalloc_at ok (next_xfr_addr y)) c user data len (sbe y)
          = Some (r, s1)" and "sbe y1 = s1"
    by auto
  with write_enter_q [OF e] Op_write show ?thesis
    by auto
next
  case (Op_write_wake jiffies w)
  with assms obtain r s1 where
    "sbefifo_write_common_iter jiffies w (sbe y) = Some (r, s1)" "sbe y1 = s1"
    by (auto split: if_splits option.splits)
  with Op_write_wake show ?thesis
    by (auto dest: write_iter_q simp: q_same_def)
next
  case (Op_write_signal jiffies w)
  with assms obtain r s1 where
    "sbefifo_write_common_intr jiffies w (sbe y) = Some (r, s1)" "sbe y1 = s1"
    by (auto split: if_splits option.splits)
  with Op_write_signal show ?thesis
    by (auto dest: write_intr_q simp: q_same_def)
next
  case (Op_read c uf len)
  with assms obtain r s1 where
    "sbefifo_read_common_enter c uf len (sbe y) = Some (r, s1)" "sbe y1 = s1"
    by (auto split: if_splits option.splits)
  with Op_read show ?thesis
    by (auto dest: read_enter_q simp: q_same_def)
next
  case (Op_read_wake jiffies past rd)
  with assms obtain r s1 where
    "sbefifo_read_common_body jiffies past rd (sbe y) = Some (r, s1)" "sbe y1 = s1"
    by (auto split: if_splits option.splits)
  with Op_read_wake show ?thesis
    by (auto dest: read_body_q simp: q_same_def)
next
  case (Op_read_signal jiffies rd)
  with assms obtain r s1 where
    "sbefifo_read_common_intr jiffies rd (sbe y) = Some (r, s1)" "sbe y1 = s1"
    by (auto split: if_splits option.splits)
  with Op_read_signal show ?thesis
    by (auto dest: read_intr_q simp: q_same_def)
next
  case (Op_release jiffies c)
  with assms obtain r s1 where
    "sbefifo_release jiffies c (sbe y) = Some (r, s1)" "sbe y1 = s1"
    by (auto split: if_splits option.splits)
  with Op_release show ?thesis
    by (auto dest: release_q simp: q_same_def)
next
  case (Op_tick jiffies)
  with tick_step [of P jiffies y y1] assms obtain evs s1 where
    t: "sbefifo_poll_timer P jiffies (sbe y) = Some (accesses evs, s1)"
    and y1: "y1 = logged y evs s1"
    by auto
  with assms(2) Op_tick show ?thesis
    by (auto simp: sbefifo_poll_timer_def)
next
  case Op_remove
  with remove_step [of P y y1] assms show ?thesis
    by (auto simp: sbefifo_remove_def tick_fatal_def)
qed

lemma run_rc:
  assumes "reach P y" and "rc (sbe y) \<noteq> 0" and "run P ops y = Some y1"
  shows "rc (sbe y1) \<noteq> 0 \<and> (Op_remove \<notin> set ops \<longrightarrow> rc (sbe y1) = rc (sbe y))"
  using assms
proof (induction ops arbitrary: y)
  case Nil
  then show ?case by simp
next
  case (Cons op ops)
  then obtain y2 where s: "sys_step P op y = Some y2" and r: "run P ops y2 = Some y1"
    by (auto split: option.splits)
  have "xfrs (sbe y) = []"
    using reach_inv_queue [OF Cons.prems(1)] Cons.prems(2) by (simp add: inv_queue_def)
  from sys_step_rc [OF s this] have
    rc2: "rc (sbe y2) \<noteq> 0" "op \<noteq> Op_remove \<longrightarrow> rc (sbe y2) = rc (sbe y)"
    using Cons.prems(2) by (auto simp: ENODEV_def split: if_splits)
  have "reach P y2"
    using Cons.prems(1) s by (rule reach_step)
  from Cons.IH [OF this rc2(1) r] rc2(2) show ?case
    by auto
qed

text \<open>
  Claim C3.  In every reachable state whose error code \<open>rc\<close> is set: the global queue
  is empty; after any further sequence of operations the code is still set, and it is the
  same code unless the device was removed in between; removing the device stores the code
  \<open>-ENODEV\<close>; on every open client a write of a non-zero whole number of words returns
  the code without enqueueing anything, leaving the state as it was; on every open
  blocking client a read of a whole number of words passes the length check, finds its
  wait condition true at once and returns the code with no data; and \<open>sbefifo_open\<close>
  returns the code and creates no client.
\<close>

theorem fatal_latch:
  assumes "reach P y" and "rc (sbe y) \<noteq> 0"
  shows "xfrs (sbe y) = [] \<and>
         (\<forall>ops y1. run P ops y = Some y1 \<longrightarrow>
            rc (sbe y1) \<noteq> 0 \<and> (Op_remove \<notin> set ops \<longrightarrow> rc (sbe y1) = rc (sbe y))) \<and>
         (\<forall>y1. sys_step P Op_remove y = Some y1 \<longrightarrow> rc (sbe y1) = - ENODEV) \<and>
         (\<forall>c\<in>set (handles y). \<forall>jiffies kz user data len.
            push_bit 2 (drop_bit 2 len) = len \<and> len \<noteq> 0 \<longrightarrow>
            sbefifo_write_common_enter jiffies kz c user data len (sbe y) =
              Some (Inl (rc (sbe y)), sbe y)) \<and>
         (\<forall>c\<in>set (handles y). \<forall>jiffies past uf len.
            blocking (sbe y) c \<and> push_bit 2 (drop_bit 2 len) = len \<longrightarrow>
            (\<exists>s1 n s2.
               sbefifo_read_common_enter c uf len (sbe y) =
                 Some (Inr \<lparr>r_client = c, r_user_fault = uf, r_len = len\<rparr>, s1) \<and>
               sbefifo_read_ready s1 c = Some (True, n, rc (sbe y)) \<and>
               sbefifo_read_common_body jiffies past
                   \<lparr>r_client = c, r_user_fault = uf, r_len = len\<rparr> s1 =
                 Some ((rc (sbe y), []), s2))) \<and>
         (\<forall>kz nb. sbefifo_open kz nb (sbe y) = ((rc (sbe y), None), sbe y))"
proof -
  have empty: "xfrs (sbe y) = []"
    using reach_inv_queue [OF assms(1)] assms(2) by (simp add: inv_queue_def)
  have refs: "inv_refs y"
    using assms(1) by (rule reach_inv_refs)
  have live: "\<exists>cl. client_mem (sbe y) c = Some cl \<and> 0 < kref cl" if "c \<in> set (handles y)" for c
    using inv_refs_handle [OF refs that] by (auto simp: krefs_def)
  have rm: "rc (sbe y1) = - ENODEV" if "sys_step P Op_remove y = Some y1" for y1
    using sys_step_rc [OF that empty] by simp
  have w: "sbefifo_write_common_enter jiffies kz c user data len (sbe y) =
             Some (Inl (rc (sbe y)), sbe y)"
    if "c \<in> set (handles y)" "push_bit 2 (drop_bit 2 len) = len" "len \<noteq> 0"
    for c jiffies kz user data len
  proof -
    from live [OF that(1)] obtain cl where "client_mem (sbe y) c = Some cl" "0 < kref cl"
      by blast
    then show ?thesis
      using assms(2) empty that(2,3) by (rule latched_write)
  qed
  have r: "\<exists>s1 n s2.
             sbefifo_read_common_enter c uf len (sbe y) =
               Some (Inr \<lparr>r_client = c, r_user_fault = uf, r_len = len\<rparr>, s1) \<and>
             sbefifo_read_ready s1 c = Some (True, n, rc (sbe y)) \<and>
             sbefifo_read_common_body jiffies past
                 \<lparr>r_client = c, r_user_fault = uf, r_len = len\<rparr> s1 =
               Some ((rc (sbe y), []), s2)"
    if "c \<in> set (handles y)" "blocking (sbe y) c" "push_bit 2 (drop_bit 2 len) = len"
    for c jiffies past uf len
  proof -
    from live [OF that(1)] obtain cl where cl: "client_mem (sbe y) c = Some cl" "0 < kref cl"
      by blast
    with that(2) have "\<not> o_nonblock cl"
      by (simp add: blocking_def)
    from latched_read [OF cl assms(2) this that(3)] show ?thesis
      by blast
  qed
  have o: "sbefifo_open kz nb (sbe y) = ((rc (sbe y), None), sbe y)" for kz nb
    using assms(2) by (simp add: sbefifo_open_def)
  from empty run_rc [OF assms] rm w r o show ?thesis
    by blast
qed

lemma reach_timed_out: "reach dev4 timed_out"
proof -
  have "run dev4 latch_ops (sys_init ()) \<noteq> None"
    by code_simp
  then have "run dev4 latch_ops (sys_init ()) = Some timed_out"
    by (auto simp: timed_out_def)
  with reach_init show ?thesis
    by (rule run_reach)
qed

text \<open>
  C3, as stated, fails.  After the data timeout has latched \<open>-ETIME\<close>, removing the
  device replaces the latched code by \<open>-ENODEV\<close>, and a write on the client that was
  open all along then fails with \<open>-ENODEV\<close>, not with the code latched first.
\<close>

theorem code_after_remove_counterexample:
  "reach dev4 timed_out \<and> rc (sbe timed_out) = - ETIME \<and> handles timed_out = [0] \<and>
   map_option (\<lambda>y. rc (sbe y)) (sys_step dev4 Op_remove timed_out) = Some (- ENODEV) \<and>
   map_option (\<lambda>y. map_option fst
       (sbefifo_write_common_enter 7000 (Some 1) 0 False [1] 4 (sbe y)))
     (sys_step dev4 Op_remove timed_out) = Some (Some (Inl (- ENODEV)))"
proof -
  have "rc (sbe timed_out) = - ETIME \<and> handles timed_out = [0] \<and>
   map_option (\<lambda>y. rc (sbe y)) (sys_step dev4 Op_remove timed_out) = Some (- ENODEV) \<and>
   map_option (\<lambda>y. map_option fst
       (sbefifo_write_common_enter 7000 (Some 1) 0 False [1] 4 (sbe y)))
     (sys_step dev4 Op_remove timed_out) = Some (Some (Inl (- ENODEV)))"
    by code_simp
  with reach_timed_out show ?thesis
    by (rule conjI)
qed

theorem fatal_latch_witness:
  "xfrs (sbe timed_out) = [] \<and>
   sbefifo_write_common_enter 7000 (Some 1) 0 False [1] 4 (sbe timed_out) =
     Some (Inl (- ETIME), sbe timed_out) \<and>
   sbefifo_open (Some 1) False (sbe timed_out) = ((- ETIME, None), sbe timed_out)"
proof -
  have rc: "rc (sbe timed_out) = - ETIME"
    by code_simp
  then have l: "rc (sbe timed_out) \<noteq> 0"
    by (simp add: ETIME_def)
  have h: "0 \<in> set (handles timed_out)"
    by code_simp
  have len: "push_bit 2 (drop_bit 2 (4 :: size_t)) = 4 \<and> (4 :: size_t) \<noteq> 0"
    by simp
  note t = fatal_latch [OF reach_timed_out l]
  have "xfrs (sbe timed_out) = []"
    using t by (rule conjunct1)
  moreover have "sbefifo_write_common_enter 7000 (Some 1) 0 False [1] 4 (sbe timed_out) =
     Some (Inl (- ETIME), sbe timed_out)"
    using t h len rc by fastforce
  moreover have "sbefifo_open (Some 1) False (sbe timed_out) = ((- ETIME, None), sbe timed_out)"
    using t rc by fastforce
  ultimately show ?thesis
    by (intro conjI)
qed

end
